theory Spec2Isabelle
  imports Main "HOL-Library.Signed_Division"
begin

section \<open>Bytes, return codes and the connection handle\<close>

text \<open>
  The reply reader of credis.c, embedded function by function. Pointers into the receive
  buffer are offsets into \<open>buf_data\<close>; a read or write outside an allocated array is
  undefined behaviour in C and is the value \<open>None\<close> here, so every function of the
  reader returns an \<open>option\<close>.
\<close>

abbreviation CR :: char where "CR \<equiv> CHR 0x0D"

abbreviation LF :: char where "LF \<equiv> CHR 0x0A"

abbreviation NUL :: char where "NUL \<equiv> CHR 0x00"

abbreviation CR_ERROR :: char where "CR_ERROR \<equiv> CHR ''-''"

abbreviation CR_INLINE :: char where "CR_INLINE \<equiv> CHR ''+''"

abbreviation CR_BULK :: char where "CR_BULK \<equiv> CHR ''$''"

abbreviation CR_MULTIBULK :: char where "CR_MULTIBULK \<equiv> CHR ''*''"

abbreviation CR_INT :: char where "CR_INT \<equiv> CHR '':''"

abbreviation CR_MULTIBULK_SIZE :: int where "CR_MULTIBULK_SIZE \<equiv> 64"

text \<open>
  Modelled from the spec: credis.h, which defines the macros \<open>CREDIS_ERR_PROTOCOL\<close>,
  \<open>CREDIS_ERR_RECV\<close>, \<open>CREDIS_ERR_SEND\<close> and \<open>CREDIS_ERR_TIMEOUT\<close>, is not among the
  sources. The spec (section 7) lists them as separate error kinds, so they are kept as
  distinct symbolic codes; \<open>OK\<close> is the literal \<open>0\<close> the handlers return on success.
\<close>

datatype retcode = OK | CREDIS_ERR_PROTOCOL | CREDIS_ERR_RECV | CREDIS_ERR_SEND | CREDIS_ERR_TIMEOUT

text \<open>
  What the socket will answer to the next \<open>select\<close> and \<open>recv\<close>: \<open>select\<close> returns 0
  (the deadline elapsed), \<open>select\<close> fails, \<open>recv\<close> fails, \<open>recv\<close> returns 0 (the peer
  has closed), or \<open>recv\<close> has these bytes to deliver. A socket with no event left stays
  silent: \<open>select\<close> runs into its deadline.
\<close>

datatype sock_event = Select_timeout | Select_error | Recv_error | Recv_closed | Recv_data "char list"

text \<open>
  \<open>cr_redis\<close> with its \<open>cr_buffer\<close> and \<open>cr_reply\<close> flattened: \<open>buf_idx\<close> is
  \<open>rhnd->buf.idx\<close>, \<open>multibulk_len\<close> is \<open>rhnd->reply.multibulk.len\<close>. The length of
  \<open>buf_data\<close> is the allocated size of \<open>buf.data\<close>, the length of \<open>multibulk_bulks\<close> the
  number of pointers that fit the allocation of \<open>bulks\<close>. A \<open>char *\<close> into the buffer
  is its offset, \<open>NULL\<close> is \<open>None\<close>. The fields \<open>fd\<close>, \<open>ip\<close>, \<open>port\<close>, \<open>timeout\<close>
  and \<open>error\<close> are not touched by the reader; \<open>sock\<close> stands for the socket behind
  \<open>fd\<close>. An \<open>int\<close> of the C code is an \<open>int\<close> here; where a value could leave the
  range of a 32-bit \<open>int\<close> (\<open>atoi\<close>, \<open>bnum--\<close>, \<open>nsize\<close>) the behaviour is
  undefined and the result \<open>None\<close>.
\<close>

record cr_redis =
  buf_data :: "char list"
  buf_idx :: int
  buf_len :: int
  buf_size :: int
  reply_integer :: int
  reply_line :: "int option"
  reply_bulk :: "int option"
  multibulk_bulks :: "int option list"
  multibulk_size :: int
  multibulk_len :: int
  sock :: "sock_event list"

definition load :: "char list \<Rightarrow> int \<Rightarrow> char option" where
  "load mem p = (if 0 \<le> p \<and> p < int (length mem) then Some (mem ! nat p) else None)"

definition store :: "char list \<Rightarrow> int \<Rightarrow> char \<Rightarrow> char list option" where
  "store mem p c = (if 0 \<le> p \<and> p < int (length mem) then Some (mem[nat p := c]) else None)"

section \<open>cr_findnl\<close>

text \<open>
  \<open>while (--len) { if (*(buf++) == '\r') if (*buf == '\n') return --buf; } return NULL;\<close>
  The result is paired with the offsets the loop dereferences, in order. The inner
  \<open>option\<close> is the returned pointer (\<open>None\<close> for \<open>NULL\<close>), the outer one is \<open>None\<close> when
  a dereference leaves the array.
\<close>

function cr_findnl_trace :: "char list \<Rightarrow> int \<Rightarrow> int \<Rightarrow> int option option \<times> int list" where
  "cr_findnl_trace mem buf len =
     (if len - 1 = 0 then (Some None, [])
      else (case load mem buf of
              None \<Rightarrow> (None, [buf])
            | Some c \<Rightarrow>
                if c = CR then
                  (case load mem (buf + 1) of
                     None \<Rightarrow> (None, [buf, buf + 1])
                   | Some d \<Rightarrow>
                       if d = LF then (Some (Some buf), [buf, buf + 1])
                       else (let (r, tr) = cr_findnl_trace mem (buf + 1) (len - 1)
                             in (r, buf # (buf + 1) # tr)))
                else (let (r, tr) = cr_findnl_trace mem (buf + 1) (len - 1)
                      in (r, buf # tr))))"
  by pat_completeness auto

termination
  by (relation "measure (\<lambda>(mem, buf, len). nat (int (length mem) - buf))")
     (auto simp: load_def split: if_splits)

declare cr_findnl_trace.simps [simp del]

definition cr_findnl :: "char list \<Rightarrow> int \<Rightarrow> int \<Rightarrow> int option option" where
  "cr_findnl mem buf len = fst (cr_findnl_trace mem buf len)"

definition cr_findnl_reads :: "char list \<Rightarrow> int \<Rightarrow> int \<Rightarrow> int list" where
  "cr_findnl_reads mem buf len = snd (cr_findnl_trace mem buf len)"

section \<open>cr_receivedata and cr_senddata\<close>

text \<open>
  \<open>cr_receivedata\<close> is only called on \<open>buf.data\<close> with \<open>buf.size\<close>: the received bytes
  overwrite the front of \<open>buf_data\<close>. \<open>recv\<close> delivers at most \<open>size\<close> bytes and leaves
  the rest of a longer chunk in the socket; a negative \<open>size\<close> converts to a huge
  \<open>size_t\<close>, so the whole chunk is copied.
\<close>

definition cr_receivedata :: "cr_redis \<Rightarrow> int \<Rightarrow> (int \<times> cr_redis) option" where
  "cr_receivedata s sz =
     (case sock s of
        [] \<Rightarrow> Some (- 2, s)
      | Select_timeout # es \<Rightarrow> Some (- 2, s\<lparr>sock := es\<rparr>)
      | Select_error # es \<Rightarrow> Some (- 1, s\<lparr>sock := es\<rparr>)
      | Recv_error # es \<Rightarrow> Some (- 1, s\<lparr>sock := es\<rparr>)
      | Recv_closed # es \<Rightarrow> Some (0, s\<lparr>sock := es\<rparr>)
      | Recv_data bs # es \<Rightarrow>
          (let n = (if sz < 0 then length bs else min (length bs) (nat sz))
           in if n > length (buf_data s) then None
              else Some (int n,
                         s\<lparr>buf_data := take n bs @ drop n (buf_data s),
                           sock := (if n < length bs then Recv_data (drop n bs) # es else es)\<rparr>)))"

text \<open>
  The sending side of the socket, one event for each turn of the loop: \<open>select\<close> runs
  into the deadline, \<open>select\<close> fails, or \<open>send\<close> returns the given value (negative on
  error; never more than the \<open>size - sent\<close> bytes it was given). A script that ends
  leaves \<open>select\<close> waiting until the deadline. The result is the returned \<open>int\<close>.
\<close>

datatype send_event = Send_select_timeout | Send_select_error | Send_returns int

fun cr_senddata_loop :: "send_event list \<Rightarrow> int \<Rightarrow> int \<Rightarrow> int" where
  "cr_senddata_loop [] sz sent = sent"
| "cr_senddata_loop (e # es) sz sent =
     (if sent < sz then
        (case e of
           Send_select_timeout \<Rightarrow> sent
         | Send_select_error \<Rightarrow> - 1
         | Send_returns rc \<Rightarrow>
             if rc < 0 then - 1
             else cr_senddata_loop es sz (sent + min rc (sz - sent)))
      else sent)"

definition cr_senddata :: "send_event list \<Rightarrow> int \<Rightarrow> int" where
  "cr_senddata es sz = cr_senddata_loop es sz 0"

section \<open>cr_readln\<close>

text \<open>
  The part of \<open>cr_readln\<close> after the refill: the search, the zero termination, the
  advance of \<open>idx\<close>. The result is the returned length, the value of \<open>*line\<close> (written
  only when a delimiter is found) and the connection. The \<open>printf\<close> on a missing
  delimiter writes to the standard output and is left out.
\<close>

definition cr_readln_scan :: "cr_redis \<Rightarrow> int \<Rightarrow> int \<Rightarrow> (int \<times> int \<times> cr_redis) option" where
  "cr_readln_scan s start line =
     (case cr_findnl (buf_data s) (buf_idx s + start) (buf_len s - buf_idx s) of
        None \<Rightarrow> None
      | Some None \<Rightarrow> Some (- 1, line, s)
      | Some (Some nl) \<Rightarrow>
          (case store (buf_data s) nl NUL of
             None \<Rightarrow> None
           | Some d \<Rightarrow> Some (nl - buf_idx s, buf_idx s, s\<lparr>buf_data := d, buf_idx := nl + 2\<rparr>)))"

definition cr_readln :: "cr_redis \<Rightarrow> int \<Rightarrow> int \<Rightarrow> (int \<times> int \<times> cr_redis) option" where
  "cr_readln s start line =
     (if buf_len s = 0 \<or> buf_idx s \<ge> buf_len s then
        (case cr_receivedata (s\<lparr>buf_idx := 0, buf_len := 0\<rparr>) (buf_size s) of
           None \<Rightarrow> None
         | Some (rc, s1) \<Rightarrow>
             if rc > 0 then cr_readln_scan (s1\<lparr>buf_len := rc\<rparr>) start line
             else if rc = 0 then Some (0, line, s1)
             else Some (- 1, line, s1))
      else cr_readln_scan s start line)"

text \<open>
  The offsets the search of \<open>cr_readln_scan\<close> dereferences.
\<close>

definition cr_readln_scan_reads :: "cr_redis \<Rightarrow> int \<Rightarrow> int list" where
  "cr_readln_scan_reads s start =
     cr_findnl_reads (buf_data s) (buf_idx s + start) (buf_len s - buf_idx s)"

section \<open>atoi on the zero-terminated line\<close>

text \<open>
  The string a \<open>char *\<close> points to: the bytes up to the first NUL. Without a NUL in
  the rest of the array the read runs out of it.
\<close>

definition c_string :: "char list \<Rightarrow> int \<Rightarrow> char list option" where
  "c_string mem p =
     (if 0 \<le> p \<and> NUL \<in> set (drop (nat p) mem)
      then Some (takeWhile (\<lambda>c. c \<noteq> NUL) (drop (nat p) mem)) else None)"

text \<open>
  The C library's \<open>atoi\<close>: leading white space, an optional sign, then decimal digits up
  to the first other character; no digits give 0. A value that does not fit an \<open>int\<close> is
  undefined behaviour.
\<close>

definition isspace :: "char \<Rightarrow> bool" where
  "isspace c = (c = CHR '' '' \<or> (9 \<le> (of_char c :: nat) \<and> (of_char c :: nat) \<le> 13))"

definition isdigit :: "char \<Rightarrow> bool" where
  "isdigit c = (48 \<le> (of_char c :: nat) \<and> (of_char c :: nat) \<le> 57)"

fun atoi_digits :: "int \<Rightarrow> char list \<Rightarrow> int" where
  "atoi_digits acc [] = acc"
| "atoi_digits acc (c # cs) =
     (if isdigit c then atoi_digits (10 * acc + (of_char c - 48)) cs else acc)"

definition atoi :: "char list \<Rightarrow> int option" where
  "atoi str =
     (let t = dropWhile isspace str;
          v = (case t of
                 [] \<Rightarrow> 0
               | c # cs \<Rightarrow>
                   if c = CHR ''-'' then - atoi_digits 0 cs
                   else if c = CHR ''+'' then atoi_digits 0 cs
                   else atoi_digits 0 t)
      in if - (2 ^ 31) \<le> v \<and> v < 2 ^ 31 then Some v else None)"

definition atoi_at :: "char list \<Rightarrow> int \<Rightarrow> int option" where
  "atoi_at mem p = (case c_string mem p of None \<Rightarrow> None | Some str \<Rightarrow> atoi str)"

section \<open>The reply handlers\<close>

text \<open>
  \<open>bulks[i] = v\<close>, and \<open>realloc(bulks, nsize)\<close>: the call asks for \<open>nsize\<close> bytes, which
  hold \<open>nsize / sizeof(char *)\<close> pointers (8 bytes each on the 64-bit platforms the
  library is built for); the allocation is taken to succeed, and the fresh part of a
  grown array is filled with \<open>NULL\<close>. \<open>multibulk.size\<close> is not updated.
\<close>

definition sizeof_char_ptr :: int where
  "sizeof_char_ptr = 8"

definition set_bulk :: "cr_redis \<Rightarrow> nat \<Rightarrow> int option \<Rightarrow> cr_redis option" where
  "set_bulk s i v =
     (if i < length (multibulk_bulks s)
      then Some (s\<lparr>multibulk_bulks := (multibulk_bulks s)[i := v]\<rparr>) else None)"

definition realloc_bulks :: "int option list \<Rightarrow> int \<Rightarrow> int option list" where
  "realloc_bulks bulks nsize =
     (let k = nat (nsize div sizeof_char_ptr)
      in take k bulks @ replicate (k - length bulks) None)"

text \<open>
  The \<open>for\<close> loop of \<open>cr_receivemultibulk\<close>, with \<open>bnum\<close>, \<open>i\<close> and \<open>line\<close> as they stand
  at the loop's head. Leaving the loop with \<open>bnum != 0\<close> returns
  \<open>CREDIS_ERR_PROTOCOL\<close>; \<open>bnum--\<close> at the least \<open>int\<close> overflows.
\<close>

function cr_receivemultibulk_loop ::
  "cr_redis \<Rightarrow> int \<Rightarrow> nat \<Rightarrow> int \<Rightarrow> (retcode \<times> cr_redis) option" where
  "cr_receivemultibulk_loop s bnum i line =
     (if bnum = 0 then Some (OK, s\<lparr>multibulk_len := int i\<rparr>)
      else (case cr_readln s 0 line of
              None \<Rightarrow> None
            | Some (rc, line1, s1) \<Rightarrow>
                if rc \<le> 0 then Some (CREDIS_ERR_PROTOCOL, s1)
                else (case load (buf_data s1) line1 of
                        None \<Rightarrow> None
                      | Some c \<Rightarrow>
                          if c \<noteq> CR_BULK then Some (CREDIS_ERR_PROTOCOL, s1)
                          else (case atoi_at (buf_data s1) (line1 + 1) of
                                  None \<Rightarrow> None
                                | Some blen \<Rightarrow>
                                    if blen = - 1 then
                                      (case set_bulk s1 i None of
                                         None \<Rightarrow> None
                                       | Some s2 \<Rightarrow>
                                           if bnum = - (2 ^ 31) then None
                                           else cr_receivemultibulk_loop s2 (bnum - 1) (Suc i) (line1 + 1))
                                    else (case cr_readln s1 blen (line1 + 1) of
                                            None \<Rightarrow> None
                                          | Some (rc2, line2, s2) \<Rightarrow>
                                              if rc2 \<noteq> blen then Some (CREDIS_ERR_PROTOCOL, s2)
                                              else (case set_bulk s2 i (Some line2) of
                                                      None \<Rightarrow> None
                                                    | Some s3 \<Rightarrow>
                                                        if bnum = - (2 ^ 31) then None
                                                        else cr_receivemultibulk_loop s3 (bnum - 1) (Suc i) line2))))))"
  by pat_completeness auto

definition cr_receivemultibulk :: "cr_redis \<Rightarrow> int \<Rightarrow> (retcode \<times> cr_redis) option" where
  "cr_receivemultibulk s line =
     (case atoi_at (buf_data s) line of
        None \<Rightarrow> None
      | Some bnum \<Rightarrow>
          if bnum > multibulk_size s then
            (let nsize = (bnum sdiv CR_MULTIBULK_SIZE + 1) * CR_MULTIBULK_SIZE
             in if nsize \<ge> 2 ^ 31 then None
                else cr_receivemultibulk_loop
                       (s\<lparr>multibulk_bulks := realloc_bulks (multibulk_bulks s) nsize\<rparr>) bnum 0 line)
          else cr_receivemultibulk_loop s bnum 0 line)"

definition cr_receivebulk :: "cr_redis \<Rightarrow> int \<Rightarrow> (retcode \<times> cr_redis) option" where
  "cr_receivebulk s line =
     (case atoi_at (buf_data s) line of
        None \<Rightarrow> None
      | Some blen \<Rightarrow>
          (case cr_readln s blen line of
             None \<Rightarrow> None
           | Some (rc, line1, s1) \<Rightarrow>
               if rc \<ge> 0 then Some (OK, s1\<lparr>reply_bulk := Some line1\<rparr>)
               else Some (CREDIS_ERR_PROTOCOL, s1)))"

definition cr_receiveinline :: "cr_redis \<Rightarrow> int \<Rightarrow> (retcode \<times> cr_redis) option" where
  "cr_receiveinline s line = Some (OK, s\<lparr>reply_line := Some line\<rparr>)"

definition cr_receiveint :: "cr_redis \<Rightarrow> int \<Rightarrow> (retcode \<times> cr_redis) option" where
  "cr_receiveint s line =
     (case atoi_at (buf_data s) line of
        None \<Rightarrow> None
      | Some v \<Rightarrow> Some (OK, s\<lparr>reply_integer := v\<rparr>))"

definition cr_receiveerror :: "cr_redis \<Rightarrow> int \<Rightarrow> (retcode \<times> cr_redis) option" where
  "cr_receiveerror s line = Some (CREDIS_ERR_PROTOCOL, s\<lparr>reply_line := Some line\<rparr>)"

section \<open>cr_receivereply\<close>

text \<open>
  \<open>line\<close> is an uninitialised local that is read only after \<open>cr_readln\<close> has set it;
  the reader is started with 0 for it. A \<open>prefix\<close> equal to a \<open>recvtype\<close> that is none
  of the five tags falls through the \<open>switch\<close>.
\<close>

definition cr_receivereply :: "cr_redis \<Rightarrow> char \<Rightarrow> (retcode \<times> cr_redis) option" where
  "cr_receivereply s recvtype =
     (case cr_readln (s\<lparr>buf_len := 0, buf_idx := 0\<rparr>) 0 0 of
        None \<Rightarrow> None
      | Some (rc, line, s1) \<Rightarrow>
          if rc > 0 then
            (case load (buf_data s1) line of
               None \<Rightarrow> None
             | Some prefix \<Rightarrow>
                 if prefix \<noteq> recvtype \<and> prefix \<noteq> CR_ERROR then Some (CREDIS_ERR_PROTOCOL, s1)
                 else if prefix = CR_ERROR then cr_receiveerror s1 (line + 1)
                 else if prefix = CR_INLINE then cr_receiveinline s1 (line + 1)
                 else if prefix = CR_INT then cr_receiveint s1 (line + 1)
                 else if prefix = CR_BULK then cr_receivebulk s1 (line + 1)
                 else if prefix = CR_MULTIBULK then cr_receivemultibulk s1 (line + 1)
                 else Some (CREDIS_ERR_RECV, s1))
          else Some (CREDIS_ERR_RECV, s1))"

section \<open>The handle after connecting\<close>

text \<open>
  \<open>cr_new\<close> followed by \<open>credis_connect\<close> on a socket that will behave as \<open>es\<close>: the
  structure is zeroed by \<open>calloc\<close>, the buffer has \<open>CR_BUFFER_SIZE\<close> bytes and the
  array \<open>CR_MULTIBULK_SIZE\<close> pointers. What \<open>malloc\<close> leaves in them is not
  determined; it is shown as NUL bytes and \<open>NULL\<close> pointers.
\<close>

abbreviation CR_BUFFER_SIZE :: nat where "CR_BUFFER_SIZE \<equiv> 4096"

definition cr_new :: "sock_event list \<Rightarrow> cr_redis" where
  "cr_new es =
     \<lparr>buf_data = replicate CR_BUFFER_SIZE NUL, buf_idx = 0, buf_len = 0,
      buf_size = int CR_BUFFER_SIZE,
      reply_integer = 0, reply_line = None, reply_bulk = None,
      multibulk_bulks = replicate (nat CR_MULTIBULK_SIZE) None,
      multibulk_size = CR_MULTIBULK_SIZE, multibulk_len = 0, sock = es\<rparr>"

section \<open>The wire format\<close>

text \<open>
  The replies of section 6 of the spec, as the server writes them. A line of the
  protocol is a run of bytes with no CR immediately followed by LF in it; the delimiter
  comes right after. A number is written in decimal; a bulk is its length and its bytes,
  or the length -1 for the null bulk; a multi-bulk is its count and its bulks in order.
\<close>

fun has_crlf :: "char list \<Rightarrow> bool" where
  "has_crlf (a # b # xs) = (a = CR \<and> b = LF \<or> has_crlf (b # xs))"
| "has_crlf _ = False"

fun decimal :: "nat \<Rightarrow> char list" where
  "decimal n = (if n < 10 then [char_of (48 + n)] else decimal (n div 10) @ [char_of (48 + n mod 10)])"

declare decimal.simps [simp del]

fun wire_bulk :: "char list option \<Rightarrow> char list" where
  "wire_bulk None = ''$-1'' @ [CR, LF]"
| "wire_bulk (Some p) = CR_BULK # decimal (length p) @ CR # LF # p @ [CR, LF]"

definition wire_multibulk :: "char list option list \<Rightarrow> char list" where
  "wire_multibulk es = CR_MULTIBULK # decimal (length es) @ CR # LF # concat (map wire_bulk es)"

fun payload :: "char list option \<Rightarrow> char list" where
  "payload None = []"
| "payload (Some p) = p"

text \<open>
  An entry of a multi-bulk reply that is malformed or cannot be read, in the place of a
  bulk: a line that is empty or does not start with \<open>$\<close>, with what follows it; a bulk
  whose payload line is longer than the declared length \<open>length skip\<close>, so that its
  delimiter comes later; a header that declares a positive length, at the end of the
  chunk, with no data to come from the socket; no entry at all, with no data to come.
  \<open>no_data\<close> holds of a socket whose next event is not a chunk of bytes: the deadline,
  an error, or the peer closing. \<open>wire_multibulk_bad K es d\<close> is a reply that announces
  \<open>K\<close> entries and carries the bulks \<open>es\<close> followed by \<open>d\<close>.
\<close>

datatype bad_entry =
    Wrong_line "char list" "char list"
  | Late_delimiter "char list" "char list" "char list"
  | Payload_missing nat
  | Entry_missing

fun wire_bad_entry :: "bad_entry \<Rightarrow> char list" where
  "wire_bad_entry (Wrong_line l rest) = l @ CR # LF # rest"
| "wire_bad_entry (Late_delimiter skip l rest) =
     CR_BULK # decimal (length skip) @ CR # LF # skip @ l @ CR # LF # rest"
| "wire_bad_entry (Payload_missing n) = CR_BULK # decimal n @ [CR, LF]"
| "wire_bad_entry Entry_missing = []"

fun no_data :: "sock_event list \<Rightarrow> bool" where
  "no_data (Recv_data bs # es) = False"
| "no_data es = True"

fun rejected_entry :: "bad_entry \<Rightarrow> sock_event list \<Rightarrow> bool" where
  "rejected_entry (Wrong_line l rest) evs = (\<not> has_crlf l \<and> take 1 l \<noteq> [CR_BULK])"
| "rejected_entry (Late_delimiter skip l rest) evs = (l \<noteq> [] \<and> \<not> has_crlf l)"
| "rejected_entry (Payload_missing n) evs = (0 < n \<and> int n < 2 ^ 31 \<and> no_data evs)"
| "rejected_entry Entry_missing evs = no_data evs"

definition wire_multibulk_bad :: "nat \<Rightarrow> char list option list \<Rightarrow> bad_entry \<Rightarrow> char list" where
  "wire_multibulk_bad K es d =
     CR_MULTIBULK # decimal K @ CR # LF # concat (map wire_bulk es) @ wire_bad_entry d"

text \<open>
  What a caller finds in the reply after a multi-bulk: the first \<open>multibulk.len\<close>
  pointers of \<open>bulks\<close>, each \<open>NULL\<close> or the zero-terminated string it points to
  in the buffer. An entry reads \<open>Some None\<close> for \<open>NULL\<close>, \<open>Some (Some str)\<close> for a
  string, and \<open>None\<close> when the pointer has no terminated string behind it.
\<close>

fun read_entry :: "char list \<Rightarrow> int option \<Rightarrow> char list option option" where
  "read_entry mem None = Some None"
| "read_entry mem (Some p) = map_option Some (c_string mem p)"

definition multibulk_result :: "cr_redis \<Rightarrow> char list option option list" where
  "multibulk_result s =
     map (read_entry (buf_data s)) (take (nat (multibulk_len s)) (multibulk_bulks s))"

section \<open>What happened on the sending socket\<close>

text \<open>
  The outcomes of a send that claim C8 speaks of, read off the events of the socket and
  not off \<open>cr_senddata\<close>. \<open>bytes_taken\<close> is the number of bytes the socket accepts
  in the sends that come before the first deadline or failure, \<open>first_stop\<close> that
  first deadline or failure (empty when the script ends before one, which leaves
  \<open>select\<close> to run into the deadline). All bytes are sent when the socket accepts
  \<open>size\<close> bytes before anything else happens; otherwise the deadline elapsed, or the
  socket failed, before all bytes were sent.
\<close>

fun send_accepted :: "send_event \<Rightarrow> bool" where
  "send_accepted (Send_returns rc) = (0 \<le> rc)"
| "send_accepted Send_select_timeout = False"
| "send_accepted Send_select_error = False"

fun send_count :: "send_event \<Rightarrow> int" where
  "send_count (Send_returns rc) = rc"
| "send_count Send_select_timeout = 0"
| "send_count Send_select_error = 0"

definition bytes_taken :: "send_event list \<Rightarrow> int" where
  "bytes_taken es = sum_list (map send_count (takeWhile send_accepted es))"

definition first_stop :: "send_event list \<Rightarrow> send_event list" where
  "first_stop es = take 1 (dropWhile send_accepted es)"

definition all_bytes_sent :: "send_event list \<Rightarrow> int \<Rightarrow> bool" where
  "all_bytes_sent es sz = (sz \<le> bytes_taken es)"

definition deadline_before_all_sent :: "send_event list \<Rightarrow> int \<Rightarrow> bool" where
  "deadline_before_all_sent es sz =
     (bytes_taken es < sz \<and> (first_stop es = [] \<or> first_stop es = [Send_select_timeout]))"

definition socket_error_before_all_sent :: "send_event list \<Rightarrow> int \<Rightarrow> bool" where
  "socket_error_before_all_sent es sz =
     (bytes_taken es < sz \<and> first_stop es \<noteq> [] \<and> first_stop es \<noteq> [Send_select_timeout])"

section \<open>Concrete replies and handles\<close>

text \<open>
  Replies used as concrete inputs: a bulk reply \<open>foo\<close> and the handle after its header
  line; the null bulk reply; a bulk reply that declares 3 bytes and carries 6; the handle
  after the header line of a bulk reply whose payload has only partly arrived (\<open>$3\<close>,
  then \<open>fo\<close>); a multi-bulk reply whose only entry has the header \<open>$x\<close>; and the
  handle after the first line of a multi-bulk reply that declares two entries and carries
  one, with the handle \<open>cr_receivemultibulk\<close> leaves when the peer then stays silent.
  The send and the receive path share the buffer: \<open>stale_command_handle\<close> is the
  handle after \<open>cr_sendfandreceive\<close> has formatted \<open>KEYS abcdef\<close> into it.
\<close>

definition bulk_foo_reply :: "char list" where
  "bulk_foo_reply = ''$3'' @ CR # LF # ''foo'' @ [CR, LF]"

definition bulk_foo_line_state :: cr_redis where
  "bulk_foo_line_state =
     (cr_new [])\<lparr>buf_data := ''$3'' @ NUL # LF # ''foo'' @ CR # LF # replicate 4087 NUL,
                 buf_idx := 4, buf_len := 9\<rparr>"

definition null_bulk_reply :: "char list" where
  "null_bulk_reply = ''$-1'' @ [CR, LF]"

definition long_bulk_reply :: "char list" where
  "long_bulk_reply = ''$3'' @ CR # LF # ''foobar'' @ [CR, LF]"

definition short_bulk_state :: cr_redis where
  "short_bulk_state =
     (cr_new [])\<lparr>buf_data := ''$3'' @ NUL # LF # ''fo'' @ replicate 4090 NUL,
                 buf_idx := 4, buf_len := 6\<rparr>"

definition malformed_header_reply :: "char list" where
  "malformed_header_reply = ''*1'' @ CR # LF # ''$x'' @ CR # LF # [CR, LF]"

definition truncated_multibulk_state :: cr_redis where
  "truncated_multibulk_state =
     (cr_new [])\<lparr>buf_data := ''*2'' @ NUL # LF # ''$3'' @ CR # LF # ''foo'' @ CR # LF # replicate 4083 NUL,
                 buf_idx := 4, buf_len := 13\<rparr>"

definition truncated_multibulk_final :: cr_redis where
  "truncated_multibulk_final =
     (cr_new [])\<lparr>buf_data := ''*2'' @ NUL # LF # ''$3'' @ NUL # LF # ''foo'' @ NUL # LF # replicate 4083 NUL,
                 multibulk_bulks := (replicate 64 None)[0 := Some 8]\<rparr>"

definition stale_command_handle :: "sock_event list \<Rightarrow> cr_redis" where
  "stale_command_handle es =
     (cr_new es)\<lparr>buf_data := ''KEYS abcdef'' @ CR # LF # replicate 4083 NUL, buf_len := 13\<rparr>"

section \<open>Measures and buffer contents used in the proofs\<close>

text \<open>
  Every line the reader returns either takes bytes off the socket or turns one CR of
  the buffer into NUL; a refill that takes nothing leaves the buffer as it is. The
  multi-bulk loop terminates on the pair of the bytes and events left in the socket and
  the number of CR bytes in the buffer.
\<close>

fun event_weight :: "sock_event \<Rightarrow> nat" where
  "event_weight (Recv_data bs) = Suc (length bs)"
| "event_weight _ = 1"

definition sock_weight :: "sock_event list \<Rightarrow> nat" where
  "sock_weight es = sum_list (map event_weight es)"

definition reader_measure :: "cr_redis \<Rightarrow> nat \<times> nat" where
  "reader_measure s = (sock_weight (sock s), count_list (buf_data s) CR)"

text \<open>
  A bulk of the wire after \<open>cr_readln\<close> has put NUL over the CR of its lines, and the
  pointers \<open>cr_receivemultibulk\<close> records for bulks that start at offset \<open>off\<close>.
\<close>

fun terminated_bulk :: "char list option \<Rightarrow> char list" where
  "terminated_bulk None = ''$-1'' @ [NUL, LF]"
| "terminated_bulk (Some p) = CR_BULK # decimal (length p) @ NUL # LF # p @ [NUL, LF]"

fun bulk_ptrs :: "nat \<Rightarrow> char list option list \<Rightarrow> int option list" where
  "bulk_ptrs off [] = []"
| "bulk_ptrs off (None # es) = None # bulk_ptrs (off + length (wire_bulk None)) es"
| "bulk_ptrs off (Some p # es) =
     Some (int (off + length (decimal (length p)) + 3))
       # bulk_ptrs (off + length (wire_bulk (Some p))) es"

section \<open>Termination of the multi-bulk loop\<close>

lemma findnl_trace_found:
  "cr_findnl_trace mem buf len = (Some (Some nl), tr) \<Longrightarrow>
     load mem nl = Some CR \<and> load mem (nl + 1) = Some LF \<and> buf \<le> nl"
proof (induction mem buf len arbitrary: tr rule: cr_findnl_trace.induct)
  case (1 mem buf len)
  show ?case
  proof (cases "len - 1 = 0")
    case True
    with "1.prems" show ?thesis by (simp add: cr_findnl_trace.simps [of mem buf len])
  next
    case ne: False
    show ?thesis
    proof (cases "load mem buf")
      case None
      with ne "1.prems" show ?thesis by (simp add: cr_findnl_trace.simps [of mem buf len])
    next
      case (Some c)
      show ?thesis
      proof (cases "c = CR")
        case cr: True
        show ?thesis
        proof (cases "load mem (buf + 1)")
          case None
          with ne Some cr "1.prems" show ?thesis
            by (simp add: cr_findnl_trace.simps [of mem buf len])
        next
          case d: (Some d)
          show ?thesis
          proof (cases "d = LF")
            case True
            with ne Some cr d "1.prems" show ?thesis
              by (simp add: cr_findnl_trace.simps [of mem buf len])
          next
            case False
            with ne Some cr d "1.prems" obtain tr' where
              "cr_findnl_trace mem (buf + 1) (len - 1) = (Some (Some nl), tr')"
              by (auto simp: cr_findnl_trace.simps [of mem buf len] split: prod.splits)
            from "1.IH"(1) [OF ne Some cr d False this] show ?thesis by simp
          qed
        qed
      next
        case False
        with ne Some "1.prems" obtain tr' where
          "cr_findnl_trace mem (buf + 1) (len - 1) = (Some (Some nl), tr')"
          by (auto simp: cr_findnl_trace.simps [of mem buf len] split: prod.splits)
        from "1.IH"(2) [OF ne Some False this] show ?thesis by simp
      qed
    qed
  qed
qed

lemma findnl_found:
  "cr_findnl mem buf len = Some (Some nl) \<Longrightarrow>
     load mem nl = Some CR \<and> load mem (nl + 1) = Some LF \<and> buf \<le> nl"
  using findnl_trace_found [of mem buf len nl "snd (cr_findnl_trace mem buf len)"]
  by (simp add: cr_findnl_def prod_eq_iff)

lemma count_list_update_less:
  "n < length xs \<Longrightarrow> xs ! n = a \<Longrightarrow> b \<noteq> a \<Longrightarrow>
     Suc (count_list (xs[n := b]) a) = count_list xs a"
proof (induction xs arbitrary: n)
  case Nil
  then show ?case by simp
next
  case (Cons x xs)
  then show ?case by (cases n) auto
qed

lemma receivedata_weight:
  assumes "cr_receivedata s sz = Some (rc, s')"
  shows "(0 < rc \<longrightarrow> sock_weight (sock s') < sock_weight (sock s)) \<and>
         (sock_weight (sock s') < sock_weight (sock s) \<or>
          sock s' = sock s \<and> buf_data s' = buf_data s)"
  using assms
  by (auto simp: cr_receivedata_def sock_weight_def Let_def
           split: list.splits sock_event.splits if_splits)

lemma readln_scan_measure:
  assumes "cr_readln_scan s start line = Some (rc, l, s')"
  shows "sock s' = sock s \<and>
         (s' = s \<and> rc = - 1 \<or> Suc (count_list (buf_data s') CR) = count_list (buf_data s) CR)"
proof (cases "cr_findnl (buf_data s) (buf_idx s + start) (buf_len s - buf_idx s)")
  case None
  with assms show ?thesis by (simp add: cr_readln_scan_def)
next
  case (Some r)
  show ?thesis
  proof (cases r)
    case None
    with Some assms show ?thesis by (simp add: cr_readln_scan_def)
  next
    case (Some nl)
    with \<open>cr_findnl _ _ _ = Some r\<close> have ld: "load (buf_data s) nl = Some CR"
      using findnl_found by blast
    then have inb: "0 \<le> nl" "nat nl < length (buf_data s)" "buf_data s ! nat nl = CR"
      by (auto simp: load_def split: if_splits)
    from assms Some \<open>cr_findnl _ _ _ = Some r\<close> inb(1,2)
    have s': "s' = s\<lparr>buf_data := (buf_data s)[nat nl := NUL], buf_idx := nl + 2\<rparr>"
      by (auto simp: cr_readln_scan_def store_def split: if_splits)
    show ?thesis
      using count_list_update_less [OF inb(2,3), of NUL] by (simp add: s')
  qed
qed

lemma readln_measure:
  assumes "cr_readln s start line = Some (rc, l, s')"
  shows "(reader_measure s', reader_measure s) \<in> less_than <*lex*> less_than \<or>
         reader_measure s' = reader_measure s \<and> rc \<le> 0"
proof (cases "buf_len s = 0 \<or> buf_idx s \<ge> buf_len s")
  case False
  with assms have "cr_readln_scan s start line = Some (rc, l, s')"
    by (simp add: cr_readln_def)
  from readln_scan_measure [OF this] show ?thesis
    by (auto simp: reader_measure_def)
next
  case True
  with assms obtain rc1 s1 where
    rd: "cr_receivedata (s\<lparr>buf_idx := 0, buf_len := 0\<rparr>) (buf_size s) = Some (rc1, s1)"
    by (auto simp: cr_readln_def split: option.splits)
  from receivedata_weight [OF rd]
  have w: "0 < rc1 \<longrightarrow> sock_weight (sock s1) < sock_weight (sock s)"
    "sock_weight (sock s1) < sock_weight (sock s) \<or> sock s1 = sock s \<and> buf_data s1 = buf_data s"
    by simp_all
  show ?thesis
  proof (cases "0 < rc1")
    case True
    with assms \<open>buf_len s = 0 \<or> buf_idx s \<ge> buf_len s\<close> rd
    have "cr_readln_scan (s1\<lparr>buf_len := rc1\<rparr>) start line = Some (rc, l, s')"
      by (simp add: cr_readln_def)
    from readln_scan_measure [OF this] w(1) True show ?thesis
      by (auto simp: reader_measure_def)
  next
    case False
    with assms \<open>buf_len s = 0 \<or> buf_idx s \<ge> buf_len s\<close> rd
    have "s' = s1" "rc \<le> 0"
      by (auto simp: cr_readln_def split: if_splits)
    with w(2) show ?thesis
      by (auto simp: reader_measure_def)
  qed
qed

lemma set_bulk_measure: "set_bulk s i v = Some s' \<Longrightarrow> reader_measure s' = reader_measure s"
  by (auto simp: set_bulk_def reader_measure_def split: if_splits)

termination cr_receivemultibulk_loop
proof (relation "inv_image (less_than <*lex*> less_than) (\<lambda>(s, bnum, i, line). reader_measure s)")
  show "wf (inv_image (less_than <*lex*> less_than) (\<lambda>(s, bnum, i, line). reader_measure s))"
    by (intro wf_inv_image wf_lex_prod wf_less_than)
next
  fix s :: cr_redis and bnum :: int and i :: nat and line :: int
    and x2 and rc :: int and y and line1 :: int and s1 c blen s2
  assume "bnum \<noteq> 0" "cr_readln s 0 line = Some x2" "(rc, y) = x2" "(line1, s1) = y"
    "\<not> rc \<le> 0" "set_bulk s1 i None = Some s2"
  then have "cr_readln s 0 line = Some (rc, line1, s1)" by auto
  from readln_measure [OF this] \<open>\<not> rc \<le> 0\<close> set_bulk_measure [OF \<open>set_bulk s1 i None = Some s2\<close>]
  show "((s2, bnum - 1, Suc i, line1 + 1), s, bnum, i, line)
        \<in> inv_image (less_than <*lex*> less_than) (\<lambda>(s, bnum, i, line). reader_measure s)"
    by auto
next
  fix s :: cr_redis and bnum :: int and i :: nat and line :: int
    and x2 and rc :: int and y and line1 :: int and s1 c blen x2a rc2 ya line2 s2 s3
  assume "bnum \<noteq> 0" "cr_readln s 0 line = Some x2" "(rc, y) = x2" "(line1, s1) = y"
    "\<not> rc \<le> 0" "cr_readln s1 blen (line1 + 1) = Some x2a" "(rc2, ya) = x2a" "(line2, s2) = ya"
    "set_bulk s2 i (Some line2) = Some s3"
  then have a: "cr_readln s 0 line = Some (rc, line1, s1)"
    and b: "cr_readln s1 blen (line1 + 1) = Some (rc2, line2, s2)" by auto
  from readln_measure [OF a] \<open>\<not> rc \<le> 0\<close> readln_measure [OF b]
    set_bulk_measure [OF \<open>set_bulk s2 i (Some line2) = Some s3\<close>]
  show "((s3, bnum - 1, Suc i, line2), s, bnum, i, line)
        \<in> inv_image (less_than <*lex*> less_than) (\<lambda>(s, bnum, i, line). reader_measure s)"
    by (cases "reader_measure s", cases "reader_measure s1", cases "reader_measure s2") auto
qed

declare cr_receivemultibulk_loop.simps [simp del]

section \<open>Reading a line that is on the wire\<close>

lemma load_append_here [simp]: "load (pre @ a # rest) (int (length pre)) = Some a"
  by (simp add: load_def)

lemma load_append_next [simp]: "load (pre @ a # b # rest) (int (length pre) + 1) = Some b"
  by (simp add: load_def nth_append nat_add_distrib)

lemma findnl_trace_line:
  assumes "\<not> has_crlf l" and "int (length l) + 2 \<le> len"
  shows "fst (cr_findnl_trace (pre @ l @ CR # LF # post) (int (length pre)) len)
           = Some (Some (int (length pre) + int (length l)))"
  using assms
proof (induction l arbitrary: pre len)
  case Nil
  then show ?case
    by (simp add: cr_findnl_trace.simps [of _ "int (length pre)" len])
next
  case (Cons a l)
  have ne: "len - 1 \<noteq> 0" using Cons.prems by simp
  have nc: "\<not> has_crlf l" using Cons.prems(1) by (cases l) auto
  have "fst (cr_findnl_trace ((pre @ [a]) @ l @ CR # LF # post) (int (length (pre @ [a]))) (len - 1))
           = Some (Some (int (length (pre @ [a])) + int (length l)))"
    by (rule Cons.IH [OF nc]) (use Cons.prems in simp)
  then have ih: "fst (cr_findnl_trace (pre @ a # l @ CR # LF # post) (int (length pre) + 1) (len - 1))
           = Some (Some (int (length pre) + int (length (a # l))))"
    by (simp add: add.commute add.left_commute)
  obtain b rest where br: "l @ CR # LF # post = b # rest" "a = CR \<longrightarrow> b \<noteq> LF"
    using Cons.prems(1) by (cases l) auto
  have nxt: "load (pre @ a # l @ CR # LF # post) (int (length pre) + 1) = Some b"
    unfolding br(1) by (rule load_append_next)
  have here: "load (pre @ a # l @ CR # LF # post) (int (length pre)) = Some a"
    by (rule load_append_here)
  show ?case
    apply (subst cr_findnl_trace.simps)
    using ih ne nxt here br(2)
    apply (simp only: append_Cons append_Nil if_False option.case split: prod.splits)
    apply (auto simp: Let_def split: prod.splits)
    done
qed

lemma findnl_line:
  assumes "\<not> has_crlf l" and "int (length l) + 2 \<le> len"
  shows "cr_findnl (pre @ l @ CR # LF # post) (int (length pre)) len
           = Some (Some (int (length pre) + int (length l)))"
  using findnl_trace_line [OF assms] by (simp add: cr_findnl_def)

lemma store_append_here [simp]:
  "store (pre @ a # rest) (int (length pre)) c = Some (pre @ c # rest)"
  by (simp add: store_def)

lemma readln_scan_line:
  assumes data: "buf_data s = pre @ skip @ l @ CR # LF # post"
    and idx: "buf_idx s = int (length pre)"
    and len: "int (length pre) + int (length skip) + int (length l) + 2 \<le> buf_len s"
    and nocr: "\<not> has_crlf l"
  shows "cr_readln_scan s (int (length skip)) line =
           Some (int (length skip) + int (length l), int (length pre),
                 s\<lparr>buf_data := pre @ skip @ l @ NUL # LF # post,
                   buf_idx := int (length pre) + int (length skip) + int (length l) + 2\<rparr>)"
proof -
  define nl where "nl = int (length (pre @ skip @ l))"
  have "cr_findnl ((pre @ skip) @ l @ CR # LF # post) (int (length (pre @ skip))) (buf_len s - buf_idx s)
          = Some (Some (int (length (pre @ skip)) + int (length l)))"
    by (rule findnl_line [OF nocr]) (use len idx in simp)
  then have f: "cr_findnl (buf_data s) (buf_idx s + int (length skip)) (buf_len s - buf_idx s)
          = Some (Some nl)"
    by (simp add: data idx nl_def)
  have "store ((pre @ skip @ l) @ CR # LF # post) (int (length (pre @ skip @ l))) NUL
          = Some ((pre @ skip @ l) @ NUL # LF # post)"
    by (rule store_append_here)
  then have st: "store (buf_data s) nl NUL = Some (pre @ skip @ l @ NUL # LF # post)"
    by (simp add: data nl_def)
  show ?thesis
    unfolding cr_readln_scan_def f option.case st
    by (simp add: idx nl_def)
qed

lemma readln_buffered_line:
  assumes data: "buf_data s = pre @ skip @ l @ CR # LF # post"
    and idx: "buf_idx s = int (length pre)"
    and len: "int (length pre) + int (length skip) + int (length l) + 2 \<le> buf_len s"
    and nocr: "\<not> has_crlf l"
  shows "cr_readln s (int (length skip)) line =
           Some (int (length skip) + int (length l), int (length pre),
                 s\<lparr>buf_data := pre @ skip @ l @ NUL # LF # post,
                   buf_idx := int (length pre) + int (length skip) + int (length l) + 2\<rparr>)"
proof -
  have "\<not> (buf_len s = 0 \<or> buf_idx s \<ge> buf_len s)"
    using len idx by simp
  then show ?thesis
    using readln_scan_line [OF assms] by (simp add: cr_readln_def)
qed

lemma receivedata_chunk:
  assumes "sock s = Recv_data bs # es"
    and "length bs \<le> length (buf_data s)" and "int (length bs) \<le> sz"
  shows "cr_receivedata s sz =
           Some (int (length bs), s\<lparr>buf_data := bs @ drop (length bs) (buf_data s), sock := es\<rparr>)"
proof -
  have "length bs \<le> nat sz" "\<not> sz < 0"
    using assms(3) by linarith+
  then show ?thesis
    using assms(1,2) by (simp add: cr_receivedata_def Let_def min_def)
qed

lemma readln_received_line:
  assumes empty: "buf_len s = 0 \<or> buf_idx s \<ge> buf_len s"
    and sock: "sock s = Recv_data (skip @ l @ CR # LF # rest) # es"
    and fits: "length (skip @ l @ CR # LF # rest) \<le> length (buf_data s)"
      "int (length (skip @ l @ CR # LF # rest)) \<le> buf_size s"
    and nocr: "\<not> has_crlf l"
  shows "cr_readln s (int (length skip)) line =
           Some (int (length skip) + int (length l), 0,
                 s\<lparr>buf_data := skip @ l @ NUL # LF # rest
                                  @ drop (length (skip @ l @ CR # LF # rest)) (buf_data s),
                   buf_idx := int (length skip) + int (length l) + 2,
                   buf_len := int (length (skip @ l @ CR # LF # rest)),
                   sock := es\<rparr>)"
proof -
  let ?bs = "skip @ l @ CR # LF # rest"
  let ?s0 = "s\<lparr>buf_idx := 0, buf_len := 0\<rparr>"
  let ?s1 = "?s0\<lparr>buf_data := ?bs @ drop (length ?bs) (buf_data ?s0), sock := es\<rparr>"
  have rd: "cr_receivedata ?s0 (buf_size s) = Some (int (length ?bs), ?s1)"
    by (rule receivedata_chunk) (use sock fits in simp_all)
  have sc: "cr_readln_scan (?s1\<lparr>buf_len := int (length ?bs)\<rparr>) (int (length skip)) line =
      Some (int (length skip) + int (length l), int (length ([]::char list)),
        (?s1\<lparr>buf_len := int (length ?bs)\<rparr>)
          \<lparr>buf_data := [] @ skip @ l @ NUL # LF # (rest @ drop (length ?bs) (buf_data s)),
            buf_idx := int (length ([]::char list)) + int (length skip) + int (length l) + 2\<rparr>)"
    by (rule readln_scan_line [OF _ _ _ nocr]) simp_all
  have pos: "0 < int (length ?bs)" by simp
  show ?thesis
    unfolding cr_readln_def using empty
    by (simp only: rd if_True option.case prod.case pos sc) simp
qed

lemma first_line:
  assumes sock: "sock s = Recv_data (tag # text @ CR # LF # rest) # es"
    and line: "\<not> has_crlf (tag # text)"
    and fits: "length (tag # text @ CR # LF # rest) \<le> length (buf_data s)"
      "int (length (tag # text @ CR # LF # rest)) \<le> buf_size s"
  shows "cr_readln (s\<lparr>buf_len := 0, buf_idx := 0\<rparr>) 0 0 =
           Some (1 + int (length text), 0,
                 s\<lparr>buf_data := tag # text @ NUL # LF # rest
                                  @ drop (length (tag # text @ CR # LF # rest)) (buf_data s),
                   buf_idx := int (length text) + 3,
                   buf_len := int (length (tag # text @ CR # LF # rest)),
                   sock := es\<rparr>)"
proof -
  let ?s0 = "s\<lparr>buf_len := 0, buf_idx := 0\<rparr>"
  have "cr_readln ?s0 (int (length ([]::char list))) 0 =
           Some (int (length ([]::char list)) + int (length (tag # text)), 0,
                 ?s0\<lparr>buf_data := [] @ (tag # text) @ NUL # LF # rest
                                  @ drop (length ([] @ (tag # text) @ CR # LF # rest)) (buf_data ?s0),
                   buf_idx := int (length ([]::char list)) + int (length (tag # text)) + 2,
                   buf_len := int (length ([] @ (tag # text) @ CR # LF # rest)),
                   sock := es\<rparr>)"
    by (rule readln_received_line) (use assms in simp_all)
  then show ?thesis by simp
qed

lemma c_string_append:
  assumes "NUL \<notin> set l"
  shows "c_string (pre @ l @ NUL # post) (int (length pre)) = Some l"
  using assms by (auto simp: c_string_def takeWhile_tail)

section \<open>The reader leaves the reply slot alone\<close>

lemma receivedata_reply:
  assumes "cr_receivedata s sz = Some (rc, s')"
  shows "reply_integer s' = reply_integer s \<and> reply_line s' = reply_line s \<and>
         reply_bulk s' = reply_bulk s \<and> multibulk_bulks s' = multibulk_bulks s \<and>
         multibulk_size s' = multibulk_size s \<and> multibulk_len s' = multibulk_len s"
  using assms
  by (auto simp: cr_receivedata_def Let_def split: list.splits sock_event.splits if_splits)

lemma readln_scan_reply:
  assumes "cr_readln_scan s start line = Some (rc, l, s')"
  shows "reply_integer s' = reply_integer s \<and> reply_line s' = reply_line s \<and>
         reply_bulk s' = reply_bulk s \<and> multibulk_bulks s' = multibulk_bulks s \<and>
         multibulk_size s' = multibulk_size s \<and> multibulk_len s' = multibulk_len s"
  using assms
  by (auto simp: cr_readln_scan_def split: option.splits)

lemma readln_reply:
  assumes "cr_readln s start line = Some (rc, l, s')"
  shows "reply_integer s' = reply_integer s \<and> reply_line s' = reply_line s \<and>
         reply_bulk s' = reply_bulk s \<and> multibulk_bulks s' = multibulk_bulks s \<and>
         multibulk_size s' = multibulk_size s \<and> multibulk_len s' = multibulk_len s"
proof (cases "buf_len s = 0 \<or> buf_idx s \<ge> buf_len s")
  case False
  with assms have "cr_readln_scan s start line = Some (rc, l, s')"
    by (simp add: cr_readln_def)
  from readln_scan_reply [OF this] show ?thesis .
next
  case True
  with assms obtain rc1 s1 where
    rd: "cr_receivedata (s\<lparr>buf_idx := 0, buf_len := 0\<rparr>) (buf_size s) = Some (rc1, s1)"
    by (auto simp: cr_readln_def split: option.splits)
  note r1 = receivedata_reply [OF rd]
  show ?thesis
  proof (cases "0 < rc1")
    case pos: True
    with assms True rd
    have "cr_readln_scan (s1\<lparr>buf_len := rc1\<rparr>) start line = Some (rc, l, s')"
      by (simp add: cr_readln_def)
    from readln_scan_reply [OF this] r1 show ?thesis by simp
  next
    case False
    with assms True rd have "s' = s1"
      by (auto simp: cr_readln_def split: if_splits)
    with r1 show ?thesis by simp
  qed
qed

lemma set_bulk_len: "set_bulk s i v = Some s' \<Longrightarrow> multibulk_len s' = multibulk_len s"
  by (auto simp: set_bulk_def split: if_splits)

section \<open>Decimal numbers and atoi\<close>

lemma of_char_digit:
  assumes "d < 10"
  shows "(of_char (char_of (48 + d)) :: nat) = 48 + d"
  using assms by simp

lemma digit_char:
  assumes "d < 10"
  shows "isdigit (char_of (48 + d))" and "(of_char (char_of (48 + d)) :: int) = 48 + int d"
proof -
  show "isdigit (char_of (48 + d))"
    using assms by (simp add: isdigit_def)
  have "(of_char (char_of (48 + d)) :: int) = int (of_char (char_of (48 + d)))"
    by (simp only: of_nat_of_char)
  also have "\<dots> = 48 + int d"
    using of_char_digit [OF assms] by simp
  finally show "(of_char (char_of (48 + d)) :: int) = 48 + int d" .
qed

lemma isdigit_other:
  assumes "isdigit c"
  shows "\<not> isspace c" and "c \<noteq> CHR ''-''" and "c \<noteq> CHR ''+''" and "c \<noteq> NUL" and "c \<noteq> CR"
  using assms by (auto simp: isdigit_def isspace_def)

lemma decimal_digits: "c \<in> set (decimal n) \<Longrightarrow> isdigit c"
proof (induction n rule: decimal.induct)
  case (1 n)
  then show ?case
    by (subst (asm) (2) decimal.simps) (auto simp: digit_char(1) split: if_splits)
qed

lemma decimal_nonempty: "decimal n \<noteq> []"
  by (subst decimal.simps) simp

lemma atoi_digits_decimal:
  "atoi_digits acc (decimal n @ rest) = atoi_digits (acc * 10 ^ length (decimal n) + int n) rest"
proof (induction n arbitrary: acc rest rule: decimal.induct)
  case (1 n)
  show ?case
  proof (cases "n < 10")
    case True
    then show ?thesis
      by (simp add: decimal.simps [of n] digit_char mult.commute)
  next
    case False
    have "atoi_digits acc (decimal n @ rest)
            = atoi_digits acc (decimal (n div 10) @ char_of (48 + n mod 10) # rest)"
      using False by (simp add: decimal.simps [of n])
    also have "\<dots> = atoi_digits (acc * 10 ^ length (decimal (n div 10)) + int (n div 10))
                        (char_of (48 + n mod 10) # rest)"
      by (rule "1.IH" [OF False])
    also have "\<dots> = atoi_digits (10 * (acc * 10 ^ length (decimal (n div 10)) + int (n div 10))
                          + int (n mod 10)) rest"
      by (simp add: digit_char)
    also have "10 * (acc * 10 ^ length (decimal (n div 10)) + int (n div 10)) + int (n mod 10)
                 = acc * 10 ^ length (decimal n) + int n"
    proof -
      have "length (decimal n) = Suc (length (decimal (n div 10)))"
        using False by (simp add: decimal.simps [of n])
      moreover have "10 * int (n div 10) + int (n mod 10) = int n"
        by (simp add: zdiv_int zmod_int)
      ultimately show ?thesis by (simp add: algebra_simps)
    qed
    finally show ?thesis .
  qed
qed

lemma atoi_decimal:
  assumes "int n < 2 ^ 31"
  shows "atoi (decimal n) = Some (int n)"
proof -
  obtain c cs where cs: "decimal n = c # cs"
    using decimal_nonempty [of n] by (cases "decimal n") auto
  then have "isdigit c" using decimal_digits [of c n] by simp
  note c = isdigit_other [OF this]
  have "atoi_digits 0 (decimal n @ []) = int n"
    by (subst atoi_digits_decimal) simp
  then have "atoi_digits 0 (c # cs) = int n" by (simp add: cs)
  then show ?thesis
    using c assms by (simp add: atoi_def cs)
qed

lemma has_crlf_no_CR: "CR \<notin> set l \<Longrightarrow> \<not> has_crlf l"
  by (induction l rule: has_crlf.induct) auto

lemma decimal_no_CR: "CR \<notin> set (decimal n)"
  using decimal_digits isdigit_other(5) by blast

lemma decimal_no_NUL: "NUL \<notin> set (decimal n)"
  using decimal_digits isdigit_other(4) by blast

lemma atoi_minus_one: "atoi ''-1'' = Some (- 1)"
  by (simp add: atoi_def isspace_def isdigit_def)

section \<open>The multi-bulk loop on well-formed bulks\<close>

lemma length_bulk_ptrs [simp]: "length (bulk_ptrs off es) = length es"
  by (induction off es rule: bulk_ptrs.induct) simp_all

lemma length_terminated_bulk [simp]: "length (terminated_bulk e) = length (wire_bulk e)"
  by (cases e) simp_all

lemma take_Suc_update: "i < length b \<Longrightarrow> take (Suc i) (b[i := v]) = take i b @ [v]"
  by (simp add: take_Suc_conv_app_nth)

lemma multibulk_loop_null_step:
  assumes data: "buf_data s = pre @ ''$-1'' @ CR # LF # rest"
    and idx: "buf_idx s = int (length pre)"
    and len: "int (length pre) + 5 \<le> buf_len s"
    and cap: "i < length (multibulk_bulks s)"
    and bnum: "0 < bnum"
  shows "cr_receivemultibulk_loop s bnum i line =
           cr_receivemultibulk_loop
             (s\<lparr>buf_data := pre @ ''$-1'' @ NUL # LF # rest,
                buf_idx := int (length pre) + 5,
                multibulk_bulks := (multibulk_bulks s)[i := None]\<rparr>)
             (bnum - 1) (Suc i) (int (length pre) + 1)"
proof -
  define s1 where "s1 = s\<lparr>buf_data := pre @ ''$-1'' @ NUL # LF # rest,
                           buf_idx := int (length pre) + 5\<rparr>"
  have "cr_readln s (int (length ([]::char list))) line =
          Some (int (length ([]::char list)) + int (length ''$-1''), int (length pre),
                s\<lparr>buf_data := pre @ [] @ ''$-1'' @ NUL # LF # rest,
                  buf_idx := int (length pre) + int (length ([]::char list)) + int (length ''$-1'') + 2\<rparr>)"
    by (rule readln_buffered_line) (use data idx len in simp_all)
  then have rd: "cr_readln s 0 line = Some (3, int (length pre), s1)"
    by (simp add: s1_def)
  have ld: "load (buf_data s1) (int (length pre)) = Some CR_BULK"
    using load_append_here [of pre CR_BULK] by (simp add: s1_def)
  have "c_string ((pre @ [CR_BULK]) @ ''-1'' @ NUL # LF # rest) (int (length (pre @ [CR_BULK]))) = Some ''-1''"
    by (rule c_string_append) simp
  then have at: "atoi_at (buf_data s1) (int (length pre) + 1) = Some (- 1)"
    using atoi_minus_one by (simp add: atoi_at_def s1_def add.commute)
  have sb: "set_bulk s1 i None = Some (s1\<lparr>multibulk_bulks := (multibulk_bulks s)[i := None]\<rparr>)"
    using cap by (simp add: set_bulk_def s1_def)
  have nz: "bnum \<noteq> 0" "bnum \<noteq> - (2 ^ 31)" using bnum by simp_all
  show ?thesis
    apply (subst cr_receivemultibulk_loop.simps)
    apply (simp only: nz if_False rd option.case prod.case ld at sb)
    apply (simp add: s1_def)
    done
qed

lemma multibulk_loop_bulk_step:
  assumes data: "buf_data s = pre @ CR_BULK # decimal (length p) @ CR # LF # p @ CR # LF # rest"
    and idx: "buf_idx s = int (length pre)"
    and len: "int (length pre) + int (length (wire_bulk (Some p))) \<le> buf_len s"
    and cap: "i < length (multibulk_bulks s)"
    and bnum: "0 < bnum"
    and small: "int (length p) < 2 ^ 31"
  shows "cr_receivemultibulk_loop s bnum i line =
           cr_receivemultibulk_loop
             (s\<lparr>buf_data := pre @ CR_BULK # decimal (length p) @ NUL # LF # p @ NUL # LF # rest,
                buf_idx := int (length pre) + int (length (wire_bulk (Some p))),
                multibulk_bulks := (multibulk_bulks s)
                   [i := Some (int (length pre + length (decimal (length p)) + 3))]\<rparr>)
             (bnum - 1) (Suc i) (int (length pre + length (decimal (length p)) + 3))"
proof -
  let ?dl = "decimal (length p)"
  let ?hdr = "CR_BULK # ?dl"
  let ?pre1 = "pre @ ?hdr @ [NUL, LF]"
  define s1 where "s1 = s\<lparr>buf_data := pre @ ?hdr @ NUL # LF # p @ CR # LF # rest,
                           buf_idx := int (length pre) + int (length ?hdr) + 2\<rparr>"
  define s2 where "s2 = s1\<lparr>buf_data := ?pre1 @ p @ NUL # LF # rest,
                           buf_idx := int (length ?pre1) + int (length p) + 2\<rparr>"
  have nocr: "\<not> has_crlf ?hdr"
    by (rule has_crlf_no_CR) (use decimal_no_CR in simp)
  have "cr_readln s (int (length ([]::char list))) line =
          Some (int (length ([]::char list)) + int (length ?hdr), int (length pre),
                s\<lparr>buf_data := pre @ [] @ ?hdr @ NUL # LF # (p @ CR # LF # rest),
                  buf_idx := int (length pre) + int (length ([]::char list)) + int (length ?hdr) + 2\<rparr>)"
    by (rule readln_buffered_line [OF _ idx _ nocr]) (use data len in simp_all)
  then have rd: "cr_readln s 0 line = Some (int (length ?hdr), int (length pre), s1)"
    by (simp add: s1_def)
  have pos: "\<not> int (length ?hdr) \<le> 0" by simp
  have ld: "load (buf_data s1) (int (length pre)) = Some CR_BULK"
    using load_append_here [of pre CR_BULK] by (simp add: s1_def)
  have "c_string ((pre @ [CR_BULK]) @ ?dl @ NUL # (LF # p @ CR # LF # rest)) (int (length (pre @ [CR_BULK]))) = Some ?dl"
    by (rule c_string_append) (rule decimal_no_NUL)
  then have at: "atoi_at (buf_data s1) (int (length pre) + 1) = Some (int (length p))"
    using atoi_decimal [OF small] by (simp add: atoi_at_def s1_def add.commute)
  have nn: "int (length p) \<noteq> - 1" by simp
  have "cr_readln s1 (int (length p)) (int (length pre) + 1) =
          Some (int (length p) + int (length ([]::char list)), int (length ?pre1),
                s1\<lparr>buf_data := ?pre1 @ p @ [] @ NUL # LF # rest,
                   buf_idx := int (length ?pre1) + int (length p) + int (length ([]::char list)) + 2\<rparr>)"
    by (rule readln_buffered_line) (use len in \<open>simp_all add: s1_def\<close>)
  then have rd2: "cr_readln s1 (int (length p)) (int (length pre) + 1)
                    = Some (int (length p), int (length ?pre1), s2)"
    by (simp add: s2_def)
  have sb: "set_bulk s2 i (Some (int (length ?pre1)))
              = Some (s2\<lparr>multibulk_bulks := (multibulk_bulks s)[i := Some (int (length ?pre1))]\<rparr>)"
    using cap by (simp add: set_bulk_def s2_def s1_def)
  have nz: "bnum \<noteq> 0" "bnum \<noteq> - (2 ^ 31)" using bnum by simp_all
  show ?thesis
    apply (subst cr_receivemultibulk_loop.simps)
    apply (simp only: nz if_False rd option.case prod.case pos ld at nn rd2 sb
             refl if_True simp_thms)
    apply (simp add: s1_def s2_def add.commute add.left_commute)
    done
qed

lemma multibulk_loop_wire:
  assumes "buf_data s = pre @ concat (map wire_bulk es) @ post"
    and "buf_idx s = int (length pre)"
    and "int (length pre) + int (length (concat (map wire_bulk es))) \<le> buf_len s"
    and "i + length es \<le> length (multibulk_bulks s)"
    and "\<forall>p. Some p \<in> set es \<longrightarrow> int (length p) < 2 ^ 31"
  shows "\<exists>s'. cr_receivemultibulk_loop s (int (length es)) i line = Some (OK, s') \<and>
           buf_data s' = pre @ concat (map terminated_bulk es) @ post \<and>
           multibulk_bulks s' = take i (multibulk_bulks s) @ bulk_ptrs (length pre) es
                                  @ drop (i + length es) (multibulk_bulks s) \<and>
           multibulk_len s' = int (i + length es)"
  using assms
proof (induction es arbitrary: s pre i line)
  case Nil
  then show ?case
    by (simp add: cr_receivemultibulk_loop.simps [of s 0])
next
  case (Cons e es)
  have cap: "i < length (multibulk_bulks s)" using Cons.prems(4) by simp
  have bnum: "0 < int (length (e # es))" by simp
  show ?case
  proof (cases e)
    case None
    let ?rest = "concat (map wire_bulk es) @ post"
    let ?s2 = "s\<lparr>buf_data := pre @ ''$-1'' @ NUL # LF # ?rest,
                  buf_idx := int (length pre) + 5,
                  multibulk_bulks := (multibulk_bulks s)[i := None]\<rparr>"
    let ?pre2 = "pre @ ''$-1'' @ [NUL, LF]"
    have step: "cr_receivemultibulk_loop s (int (length (e # es))) i line =
                cr_receivemultibulk_loop ?s2 (int (length (e # es)) - 1) (Suc i) (int (length pre) + 1)"
      by (rule multibulk_loop_null_step [OF _ Cons.prems(2) _ cap bnum])
         (use Cons.prems(1,3) None in simp_all)
    have "\<exists>s'. cr_receivemultibulk_loop ?s2 (int (length es)) (Suc i) (int (length pre) + 1) = Some (OK, s') \<and>
           buf_data s' = ?pre2 @ concat (map terminated_bulk es) @ post \<and>
           multibulk_bulks s' = take (Suc i) (multibulk_bulks ?s2) @ bulk_ptrs (length ?pre2) es
                                  @ drop (Suc i + length es) (multibulk_bulks ?s2) \<and>
           multibulk_len s' = int (Suc i + length es)"
      by (rule Cons.IH) (use Cons.prems None in simp_all)
    then obtain s' where
      run: "cr_receivemultibulk_loop ?s2 (int (length es)) (Suc i) (int (length pre) + 1) = Some (OK, s')"
      and d: "buf_data s' = ?pre2 @ concat (map terminated_bulk es) @ post"
      and b: "multibulk_bulks s' = take (Suc i) (multibulk_bulks ?s2) @ bulk_ptrs (length ?pre2) es
                                  @ drop (Suc i + length es) (multibulk_bulks ?s2)"
      and l: "multibulk_len s' = int (Suc i + length es)"
      by blast
    have "cr_receivemultibulk_loop s (int (length (e # es))) i line = Some (OK, s')"
      using step run by simp
    moreover have "buf_data s' = pre @ concat (map terminated_bulk (e # es)) @ post"
      using d None by simp
    moreover have "multibulk_bulks s' = take i (multibulk_bulks s) @ bulk_ptrs (length pre) (e # es)
                                  @ drop (i + length (e # es)) (multibulk_bulks s)"
      using b None cap by (simp add: take_Suc_update)
    moreover have "multibulk_len s' = int (i + length (e # es))"
      using l by simp
    ultimately show ?thesis by blast
  next
    case (Some p)
    let ?dl = "decimal (length p)"
    let ?rest = "concat (map wire_bulk es) @ post"
    let ?ptr = "int (length pre + length ?dl + 3)"
    let ?s2 = "s\<lparr>buf_data := pre @ CR_BULK # ?dl @ NUL # LF # p @ NUL # LF # ?rest,
                  buf_idx := int (length pre) + int (length (wire_bulk (Some p))),
                  multibulk_bulks := (multibulk_bulks s)[i := Some ?ptr]\<rparr>"
    let ?pre2 = "pre @ CR_BULK # ?dl @ NUL # LF # p @ [NUL, LF]"
    have small: "int (length p) < 2 ^ 31" using Cons.prems(5) Some by simp
    have step: "cr_receivemultibulk_loop s (int (length (e # es))) i line =
                cr_receivemultibulk_loop ?s2 (int (length (e # es)) - 1) (Suc i) ?ptr"
      by (rule multibulk_loop_bulk_step [OF _ Cons.prems(2) _ cap bnum small])
         (use Cons.prems(1,3) Some in simp_all)
    have "\<exists>s'. cr_receivemultibulk_loop ?s2 (int (length es)) (Suc i) ?ptr = Some (OK, s') \<and>
           buf_data s' = ?pre2 @ concat (map terminated_bulk es) @ post \<and>
           multibulk_bulks s' = take (Suc i) (multibulk_bulks ?s2) @ bulk_ptrs (length ?pre2) es
                                  @ drop (Suc i + length es) (multibulk_bulks ?s2) \<and>
           multibulk_len s' = int (Suc i + length es)"
      by (rule Cons.IH) (use Cons.prems Some in simp_all)
    then obtain s' where
      run: "cr_receivemultibulk_loop ?s2 (int (length es)) (Suc i) ?ptr = Some (OK, s')"
      and d: "buf_data s' = ?pre2 @ concat (map terminated_bulk es) @ post"
      and b: "multibulk_bulks s' = take (Suc i) (multibulk_bulks ?s2) @ bulk_ptrs (length ?pre2) es
                                  @ drop (Suc i + length es) (multibulk_bulks ?s2)"
      and l: "multibulk_len s' = int (Suc i + length es)"
      by blast
    have "cr_receivemultibulk_loop s (int (length (e # es))) i line = Some (OK, s')"
      using step run by simp
    moreover have "buf_data s' = pre @ concat (map terminated_bulk (e # es)) @ post"
      using d Some by simp
    moreover have "multibulk_bulks s' = take i (multibulk_bulks s) @ bulk_ptrs (length pre) (e # es)
                                  @ drop (i + length (e # es)) (multibulk_bulks s)"
      using b Some cap by (simp add: take_Suc_update add.commute add.left_commute)
    moreover have "multibulk_len s' = int (i + length (e # es))"
      using l by simp
    ultimately show ?thesis by blast
  qed
qed

lemma read_entries_wire:
  assumes "\<forall>p. Some p \<in> set es \<longrightarrow> NUL \<notin> set p"
  shows "map (read_entry (pre @ concat (map terminated_bulk es) @ post)) (bulk_ptrs (length pre) es)
           = map Some es"
  using assms
proof (induction es arbitrary: pre)
  case Nil
  then show ?case by simp
next
  case (Cons e es)
  have ih: "map (read_entry ((pre @ terminated_bulk e) @ concat (map terminated_bulk es) @ post))
              (bulk_ptrs (length (pre @ terminated_bulk e)) es) = map Some es"
    by (rule Cons.IH) (use Cons.prems in simp)
  show ?case
  proof (cases e)
    case None
    with ih show ?thesis by simp
  next
    case (Some p)
    have "c_string ((pre @ CR_BULK # decimal (length p) @ [NUL, LF]) @ p @ NUL # (LF # concat (map terminated_bulk es) @ post))
            (int (length (pre @ CR_BULK # decimal (length p) @ [NUL, LF]))) = Some p"
      by (rule c_string_append) (use Cons.prems Some in simp)
    then have "c_string (pre @ CR_BULK # decimal (length p) @ NUL # LF # p @ NUL # LF # concat (map terminated_bulk es) @ post)
            (int (length pre + length (decimal (length p)) + 3)) = Some p"
      by (simp add: add.commute add.left_commute)
    with ih Some show ?thesis by (simp add: add.commute add.left_commute)
  qed
qed

lemma length_le_wire: "length es \<le> length (concat (map wire_bulk es))"
proof (induction es)
  case Nil
  then show ?case by simp
next
  case (Cons e es)
  then show ?case by (cases e) simp_all
qed

lemma payload_le_wire: "Some p \<in> set es \<Longrightarrow> length p \<le> length (concat (map wire_bulk es))"
  by (induction es) auto

lemma payload_no_NUL:
  "NUL \<notin> set (concat (map payload es)) \<Longrightarrow> Some p \<in> set es \<Longrightarrow> NUL \<notin> set p"
  by (induction es) auto

lemma multibulk_reply_wire:
  assumes sock: "sock s = Recv_data (wire_multibulk es) # evs"
    and fits: "length (wire_multibulk es) \<le> length (buf_data s)"
      "int (length (wire_multibulk es)) \<le> buf_size s" "buf_size s < 2 ^ 31"
    and cap: "int (length es) \<le> multibulk_size s"
      "length es \<le> length (multibulk_bulks s)"
    and nul: "NUL \<notin> set (concat (map payload es))"
  shows "\<exists>s'. cr_receivereply s CR_MULTIBULK = Some (OK, s') \<and>
           multibulk_len s' = int (length es) \<and> multibulk_result s' = map Some es"
proof -
  let ?dK = "decimal (length es)"
  let ?body = "concat (map wire_bulk es)"
  let ?chunk = "CR_MULTIBULK # ?dK @ CR # LF # ?body"
  let ?post = "drop (length ?chunk) (buf_data s)"
  let ?pre = "CR_MULTIBULK # ?dK @ [NUL, LF]"
  define s1 where "s1 = s\<lparr>buf_data := CR_MULTIBULK # ?dK @ NUL # LF # ?body @ ?post,
                           buf_idx := int (length ?dK) + 3,
                           buf_len := int (length ?chunk),
                           sock := evs\<rparr>"
  have chunk: "wire_multibulk es = ?chunk" by (simp add: wire_multibulk_def)
  have nocr: "\<not> has_crlf (CR_MULTIBULK # ?dK)"
    by (rule has_crlf_no_CR) (use decimal_no_CR in simp)
  have fl: "cr_readln (s\<lparr>buf_len := 0, buf_idx := 0\<rparr>) 0 0 = Some (1 + int (length ?dK), 0, s1)"
    unfolding s1_def
    by (rule first_line [OF _ nocr]) (use sock fits chunk in simp_all)
  have ld: "load (buf_data s1) 0 = Some CR_MULTIBULK"
    by (simp add: s1_def load_def)
  have bound: "int (length ?chunk) < 2 ^ 31"
    using fits(2,3) chunk by simp
  have K: "int (length es) < 2 ^ 31"
    using length_le_wire [of es] bound by simp
  have "c_string ([CR_MULTIBULK] @ ?dK @ NUL # (LF # ?body @ ?post)) (int (length [CR_MULTIBULK])) = Some ?dK"
    by (rule c_string_append) (rule decimal_no_NUL)
  then have at: "atoi_at (buf_data s1) 1 = Some (int (length es))"
    using atoi_decimal [OF K] by (simp add: atoi_at_def s1_def)
  have small: "\<forall>p. Some p \<in> set es \<longrightarrow> int (length p) < 2 ^ 31"
  proof (intro allI impI)
    fix p assume "Some p \<in> set es"
    from payload_le_wire [OF this] bound show "int (length p) < 2 ^ 31" by simp
  qed
  have "\<exists>s'. cr_receivemultibulk_loop s1 (int (length es)) 0 1 = Some (OK, s') \<and>
           buf_data s' = ?pre @ concat (map terminated_bulk es) @ ?post \<and>
           multibulk_bulks s' = take 0 (multibulk_bulks s1) @ bulk_ptrs (length ?pre) es
                                  @ drop (0 + length es) (multibulk_bulks s1) \<and>
           multibulk_len s' = int (0 + length es)"
    by (rule multibulk_loop_wire [OF _ _ _ _ small]) (use cap in \<open>simp_all add: s1_def\<close>)
  then obtain s' where
    run: "cr_receivemultibulk_loop s1 (int (length es)) 0 1 = Some (OK, s')"
    and d: "buf_data s' = ?pre @ concat (map terminated_bulk es) @ ?post"
    and b: "multibulk_bulks s' = bulk_ptrs (length ?pre) es @ drop (length es) (multibulk_bulks s1)"
    and l: "multibulk_len s' = int (length es)"
    by auto
  have "\<not> int (length es) > multibulk_size s1"
    using cap(1) by (simp add: s1_def)
  then have mb: "cr_receivemultibulk s1 1 = Some (OK, s')"
    using at run by (simp add: cr_receivemultibulk_def)
  have rr: "cr_receivereply s CR_MULTIBULK = Some (OK, s')"
    using mb by (simp add: cr_receivereply_def fl ld)
  have "\<forall>p. Some p \<in> set es \<longrightarrow> NUL \<notin> set p"
    using payload_no_NUL [OF nul] by blast
  from read_entries_wire [OF this, of ?pre ?post]
  have "multibulk_result s' = map Some es"
    by (simp add: multibulk_result_def d b l)
  with rr l show ?thesis by blast
qed

section \<open>Every result of the multi-bulk loop\<close>

lemma multibulk_loop_result:
  "cr_receivemultibulk_loop s bnum i line = Some (rc, s') \<Longrightarrow>
     rc = OK \<and> 0 \<le> bnum \<and> multibulk_len s' = int i + bnum \<or>
     rc = CREDIS_ERR_PROTOCOL \<and> multibulk_len s' = multibulk_len s"
proof (induction s bnum i line arbitrary: rc s' rule: cr_receivemultibulk_loop.induct)
  case (1 s bnum i line)
  note run = "1.prems" [unfolded cr_receivemultibulk_loop.simps [of s bnum i line]]
  show ?case
  proof (cases "bnum = 0")
    case True
    with run show ?thesis by auto
  next
    case nz: False
    with run obtain rc1 line1 s1 where rd: "cr_readln s 0 line = Some (rc1, line1, s1)"
      by (auto split: option.splits)
    from readln_reply [OF rd] have l1: "multibulk_len s1 = multibulk_len s" by simp
    show ?thesis
    proof (cases "rc1 \<le> 0")
      case True
      with run nz rd l1 show ?thesis by auto
    next
      case pos: False
      with run nz rd obtain c where ld: "load (buf_data s1) line1 = Some c"
        by (auto split: option.splits)
      show ?thesis
      proof (cases "c \<noteq> CR_BULK")
        case True
        with run nz rd pos ld l1 show ?thesis by auto
      next
        case tag: False
        with run nz rd pos ld obtain blen where at: "atoi_at (buf_data s1) (line1 + 1) = Some blen"
          by (auto split: option.splits)
        show ?thesis
        proof (cases "blen = - 1")
          case null: True
          with run nz rd pos ld tag at obtain s2 where
            sb: "set_bulk s1 i None = Some s2" and nmin: "bnum \<noteq> - (2 ^ 31)"
            and rec: "cr_receivemultibulk_loop s2 (bnum - 1) (Suc i) (line1 + 1) = Some (rc, s')"
            by (auto split: option.splits if_splits)
          from "1.IH"(1) [OF nz rd refl refl pos ld tag at null sb nmin rec]
            set_bulk_len [OF sb] l1
          show ?thesis by auto
        next
          case nonnull: False
          with run nz rd pos ld tag at obtain rc2 line2 s2 where
            rd2: "cr_readln s1 blen (line1 + 1) = Some (rc2, line2, s2)"
            by (auto split: option.splits)
          from readln_reply [OF rd2] l1 have l2: "multibulk_len s2 = multibulk_len s" by simp
          show ?thesis
          proof (cases "rc2 \<noteq> blen")
            case True
            with run nz rd pos ld tag at nonnull rd2 l2 show ?thesis by auto
          next
            case same: False
            with run nz rd pos ld tag at nonnull rd2 obtain s3 where
              sb: "set_bulk s2 i (Some line2) = Some s3" and nmin: "bnum \<noteq> - (2 ^ 31)"
              and rec: "cr_receivemultibulk_loop s3 (bnum - 1) (Suc i) line2 = Some (rc, s')"
              by (auto split: option.splits if_splits)
            from "1.IH"(2) [OF nz rd refl refl pos ld tag at nonnull rd2 refl refl same sb nmin rec]
              set_bulk_len [OF sb] l2
            show ?thesis by auto
          qed
        qed
      qed
    qed
  qed
qed

lemma multibulk_result_code:
  assumes "cr_receivemultibulk s line = Some (rc, s')"
  shows "rc = OK \<and> atoi_at (buf_data s) line = Some (multibulk_len s') \<and> 0 \<le> multibulk_len s' \<or>
         rc = CREDIS_ERR_PROTOCOL \<and> multibulk_len s' = multibulk_len s"
proof -
  from assms obtain bnum where at: "atoi_at (buf_data s) line = Some bnum"
    by (auto simp: cr_receivemultibulk_def split: option.splits)
  show ?thesis
  proof (cases "bnum > multibulk_size s")
    case True
    with assms at have
      "cr_receivemultibulk_loop
         (s\<lparr>multibulk_bulks := realloc_bulks (multibulk_bulks s)
              ((bnum sdiv CR_MULTIBULK_SIZE + 1) * CR_MULTIBULK_SIZE)\<rparr>) bnum 0 line = Some (rc, s')"
      by (auto simp: cr_receivemultibulk_def Let_def split: if_splits)
    from multibulk_loop_result [OF this] at show ?thesis by auto
  next
    case False
    with assms at have "cr_receivemultibulk_loop s bnum 0 line = Some (rc, s')"
      by (auto simp: cr_receivemultibulk_def)
    from multibulk_loop_result [OF this] at show ?thesis by auto
  qed
qed

section \<open>The multi-bulk loop on an entry it rejects\<close>

lemma receivedata_no_data:
  assumes "no_data (sock s)"
  shows "\<exists>rc s'. cr_receivedata s sz = Some (rc, s') \<and> rc \<le> 0"
  using assms
  by (cases "sock s" rule: no_data.cases) (simp_all add: cr_receivedata_def)

lemma readln_no_data:
  assumes "no_data (sock s)" and "buf_len s = 0 \<or> buf_len s \<le> buf_idx s"
  shows "\<exists>rc s'. cr_readln s start line = Some (rc, line, s') \<and> rc \<le> 0"
proof -
  have "no_data (sock (s\<lparr>buf_idx := 0, buf_len := 0\<rparr>))" using assms(1) by simp
  from receivedata_no_data [OF this, of "buf_size s"] obtain rc s1 where
    "cr_receivedata (s\<lparr>buf_idx := 0, buf_len := 0\<rparr>) (buf_size s) = Some (rc, s1)" "rc \<le> 0"
    by blast
  then show ?thesis using assms(2) by (auto simp: cr_readln_def)
qed

lemma multibulk_loop_prefix:
  assumes "buf_data s = pre @ concat (map wire_bulk es) @ post"
    and "buf_idx s = int (length pre)"
    and "int (length pre) + int (length (concat (map wire_bulk es))) \<le> buf_len s"
    and "i + length es \<le> length (multibulk_bulks s)"
    and "\<forall>p. Some p \<in> set es \<longrightarrow> int (length p) < 2 ^ 31"
    and "0 \<le> m"
  shows "\<exists>s' line'. cr_receivemultibulk_loop s (int (length es) + m) i line
                      = cr_receivemultibulk_loop s' m (i + length es) line' \<and>
           buf_data s' = pre @ concat (map terminated_bulk es) @ post \<and>
           buf_idx s' = int (length pre) + int (length (concat (map wire_bulk es))) \<and>
           buf_len s' = buf_len s \<and> sock s' = sock s"
  using assms
proof (induction es arbitrary: s pre i line)
  case Nil
  have "cr_receivemultibulk_loop s (int (length ([]::char list option list)) + m) i line
          = cr_receivemultibulk_loop s m (i + length ([]::char list option list)) line"
    by simp
  with Nil show ?case by auto
next
  case (Cons e es)
  have cap: "i < length (multibulk_bulks s)" using Cons.prems(4) by simp
  have bnum: "0 < int (length (e # es)) + m" using Cons.prems(6) by simp
  show ?case
  proof (cases e)
    case None
    let ?rest = "concat (map wire_bulk es) @ post"
    let ?s2 = "s\<lparr>buf_data := pre @ ''$-1'' @ NUL # LF # ?rest,
                  buf_idx := int (length pre) + 5,
                  multibulk_bulks := (multibulk_bulks s)[i := None]\<rparr>"
    let ?pre2 = "pre @ ''$-1'' @ [NUL, LF]"
    have step: "cr_receivemultibulk_loop s (int (length (e # es)) + m) i line =
                cr_receivemultibulk_loop ?s2 (int (length (e # es)) + m - 1) (Suc i) (int (length pre) + 1)"
      by (rule multibulk_loop_null_step [OF _ Cons.prems(2) _ cap bnum])
         (use Cons.prems(1,3) None in simp_all)
    have "\<exists>s' line'. cr_receivemultibulk_loop ?s2 (int (length es) + m) (Suc i) (int (length pre) + 1)
                      = cr_receivemultibulk_loop s' m (Suc i + length es) line' \<and>
           buf_data s' = ?pre2 @ concat (map terminated_bulk es) @ post \<and>
           buf_idx s' = int (length ?pre2) + int (length (concat (map wire_bulk es))) \<and>
           buf_len s' = buf_len ?s2 \<and> sock s' = sock ?s2"
      by (rule Cons.IH) (use Cons.prems None in simp_all)
    then obtain s' line' where
      run: "cr_receivemultibulk_loop ?s2 (int (length es) + m) (Suc i) (int (length pre) + 1)
              = cr_receivemultibulk_loop s' m (Suc i + length es) line'"
      and d: "buf_data s' = ?pre2 @ concat (map terminated_bulk es) @ post"
      and x: "buf_idx s' = int (length ?pre2) + int (length (concat (map wire_bulk es)))"
      and l: "buf_len s' = buf_len ?s2" and k: "sock s' = sock ?s2"
      by blast
    have "cr_receivemultibulk_loop s (int (length (e # es)) + m) i line
            = cr_receivemultibulk_loop s' m (i + length (e # es)) line'"
    proof -
      have "int (length (e # es)) + m - 1 = int (length es) + m" by simp
      with step run show ?thesis by simp
    qed
    moreover have "buf_data s' = pre @ concat (map terminated_bulk (e # es)) @ post"
      using d None by simp
    moreover have "buf_idx s' = int (length pre) + int (length (concat (map wire_bulk (e # es))))"
      using x None by simp
    moreover have "buf_len s' = buf_len s" "sock s' = sock s"
      using l k by simp_all
    ultimately show ?thesis by blast
  next
    case (Some p)
    let ?dl = "decimal (length p)"
    let ?rest = "concat (map wire_bulk es) @ post"
    let ?ptr = "int (length pre + length ?dl + 3)"
    let ?s2 = "s\<lparr>buf_data := pre @ CR_BULK # ?dl @ NUL # LF # p @ NUL # LF # ?rest,
                  buf_idx := int (length pre) + int (length (wire_bulk (Some p))),
                  multibulk_bulks := (multibulk_bulks s)[i := Some ?ptr]\<rparr>"
    let ?pre2 = "pre @ CR_BULK # ?dl @ NUL # LF # p @ [NUL, LF]"
    have small: "int (length p) < 2 ^ 31" using Cons.prems(5) Some by simp
    have step: "cr_receivemultibulk_loop s (int (length (e # es)) + m) i line =
                cr_receivemultibulk_loop ?s2 (int (length (e # es)) + m - 1) (Suc i) ?ptr"
      by (rule multibulk_loop_bulk_step [OF _ Cons.prems(2) _ cap bnum small])
         (use Cons.prems(1,3) Some in simp_all)
    have "\<exists>s' line'. cr_receivemultibulk_loop ?s2 (int (length es) + m) (Suc i) ?ptr
                      = cr_receivemultibulk_loop s' m (Suc i + length es) line' \<and>
           buf_data s' = ?pre2 @ concat (map terminated_bulk es) @ post \<and>
           buf_idx s' = int (length ?pre2) + int (length (concat (map wire_bulk es))) \<and>
           buf_len s' = buf_len ?s2 \<and> sock s' = sock ?s2"
      by (rule Cons.IH) (use Cons.prems Some in simp_all)
    then obtain s' line' where
      run: "cr_receivemultibulk_loop ?s2 (int (length es) + m) (Suc i) ?ptr
              = cr_receivemultibulk_loop s' m (Suc i + length es) line'"
      and d: "buf_data s' = ?pre2 @ concat (map terminated_bulk es) @ post"
      and x: "buf_idx s' = int (length ?pre2) + int (length (concat (map wire_bulk es)))"
      and l: "buf_len s' = buf_len ?s2" and k: "sock s' = sock ?s2"
      by blast
    have "cr_receivemultibulk_loop s (int (length (e # es)) + m) i line
            = cr_receivemultibulk_loop s' m (i + length (e # es)) line'"
    proof -
      have "int (length (e # es)) + m - 1 = int (length es) + m" by simp
      with step run show ?thesis by simp
    qed
    moreover have "buf_data s' = pre @ concat (map terminated_bulk (e # es)) @ post"
      using d Some by simp
    moreover have "buf_idx s' = int (length pre) + int (length (concat (map wire_bulk (e # es))))"
      using x Some by simp
    moreover have "buf_len s' = buf_len s" "sock s' = sock s"
      using l k by simp_all
    ultimately show ?thesis by blast
  qed
qed

lemma multibulk_loop_wrong_line:
  assumes data: "buf_data s = pre @ l @ CR # LF # post"
    and idx: "buf_idx s = int (length pre)"
    and len: "int (length pre) + int (length l) + 2 \<le> buf_len s"
    and line: "\<not> has_crlf l" "take 1 l \<noteq> [CR_BULK]"
    and m: "0 < m"
  shows "\<exists>s'. cr_receivemultibulk_loop s m i line = Some (CREDIS_ERR_PROTOCOL, s')"
proof -
  define s1 where "s1 = s\<lparr>buf_data := pre @ l @ NUL # LF # post,
                           buf_idx := int (length pre) + int (length l) + 2\<rparr>"
  have "cr_readln s (int (length ([]::char list))) line =
          Some (int (length ([]::char list)) + int (length l), int (length pre),
                s\<lparr>buf_data := pre @ [] @ l @ NUL # LF # post,
                  buf_idx := int (length pre) + int (length ([]::char list)) + int (length l) + 2\<rparr>)"
    by (rule readln_buffered_line [OF _ idx _ line(1)]) (use data len in simp_all)
  then have rd: "cr_readln s 0 line = Some (int (length l), int (length pre), s1)"
    by (simp add: s1_def)
  have nz: "m \<noteq> 0" using m by simp
  show ?thesis
  proof (cases l)
    case Nil
    then show ?thesis
      by (subst cr_receivemultibulk_loop.simps) (simp add: nz rd)
  next
    case (Cons c l')
    have c: "c \<noteq> CR_BULK" using line(2) Cons by simp
    have ld: "load (buf_data s1) (int (length pre)) = Some c"
      using load_append_here [of pre c] by (simp add: s1_def Cons)
    have pos: "\<not> int (length l) \<le> 0" using Cons by simp
    show ?thesis
      by (subst cr_receivemultibulk_loop.simps) (simp add: nz rd pos ld c)
  qed
qed

lemma bulk_header_line:
  assumes data: "buf_data s = pre @ CR_BULK # decimal n @ CR # LF # post"
    and idx: "buf_idx s = int (length pre)"
    and len: "int (length pre) + int (length (decimal n)) + 3 \<le> buf_len s"
    and small: "int n < 2 ^ 31"
  shows "cr_readln s 0 line =
           Some (1 + int (length (decimal n)), int (length pre),
                 s\<lparr>buf_data := pre @ CR_BULK # decimal n @ NUL # LF # post,
                   buf_idx := int (length pre) + int (length (decimal n)) + 3\<rparr>)"
    and "load (pre @ CR_BULK # decimal n @ NUL # LF # post) (int (length pre)) = Some CR_BULK"
    and "atoi_at (pre @ CR_BULK # decimal n @ NUL # LF # post) (int (length pre) + 1) = Some (int n)"
proof -
  let ?hdr = "CR_BULK # decimal n"
  have nocr: "\<not> has_crlf ?hdr"
    by (rule has_crlf_no_CR) (use decimal_no_CR in simp)
  have "cr_readln s (int (length ([]::char list))) line =
          Some (int (length ([]::char list)) + int (length ?hdr), int (length pre),
                s\<lparr>buf_data := pre @ [] @ ?hdr @ NUL # LF # post,
                  buf_idx := int (length pre) + int (length ([]::char list)) + int (length ?hdr) + 2\<rparr>)"
    by (rule readln_buffered_line [OF _ idx _ nocr]) (use data len in simp_all)
  then show "cr_readln s 0 line =
           Some (1 + int (length (decimal n)), int (length pre),
                 s\<lparr>buf_data := pre @ CR_BULK # decimal n @ NUL # LF # post,
                   buf_idx := int (length pre) + int (length (decimal n)) + 3\<rparr>)"
    by simp
  show "load (pre @ CR_BULK # decimal n @ NUL # LF # post) (int (length pre)) = Some CR_BULK"
    using load_append_here [of pre CR_BULK] by simp
  have "c_string ((pre @ [CR_BULK]) @ decimal n @ NUL # (LF # post)) (int (length (pre @ [CR_BULK])))
          = Some (decimal n)"
    by (rule c_string_append) (rule decimal_no_NUL)
  then show "atoi_at (pre @ CR_BULK # decimal n @ NUL # LF # post) (int (length pre) + 1) = Some (int n)"
    using atoi_decimal [OF small] by (simp add: atoi_at_def add.commute)
qed

lemma multibulk_loop_late_delimiter:
  assumes data: "buf_data s = pre @ CR_BULK # decimal (length skip) @ CR # LF # skip @ l @ CR # LF # post"
    and idx: "buf_idx s = int (length pre)"
    and len: "int (length pre) + int (length (decimal (length skip))) + 3
                + int (length skip) + int (length l) + 2 \<le> buf_len s"
    and line: "l \<noteq> []" "\<not> has_crlf l"
    and small: "int (length skip) < 2 ^ 31"
    and m: "0 < m"
  shows "\<exists>s'. cr_receivemultibulk_loop s m i line = Some (CREDIS_ERR_PROTOCOL, s')"
proof -
  let ?dl = "decimal (length skip)"
  let ?pre1 = "pre @ CR_BULK # ?dl @ [NUL, LF]"
  define s1 where "s1 = s\<lparr>buf_data := pre @ CR_BULK # ?dl @ NUL # LF # skip @ l @ CR # LF # post,
                           buf_idx := int (length pre) + int (length ?dl) + 3\<rparr>"
  define s2 where "s2 = s1\<lparr>buf_data := ?pre1 @ skip @ l @ NUL # LF # post,
                           buf_idx := int (length ?pre1) + int (length skip) + int (length l) + 2\<rparr>"
  have len1: "int (length pre) + int (length ?dl) + 3 \<le> buf_len s" using len by simp
  note h = bulk_header_line [OF data idx len1 small]
  have rd: "cr_readln s 0 line = Some (1 + int (length ?dl), int (length pre), s1)"
    using h(1) by (simp add: s1_def)
  have pos: "\<not> 1 + int (length ?dl) \<le> 0" by simp
  have ld: "load (buf_data s1) (int (length pre)) = Some CR_BULK"
    using h(2) by (simp add: s1_def)
  have at: "atoi_at (buf_data s1) (int (length pre) + 1) = Some (int (length skip))"
    using h(3) by (simp add: s1_def)
  have nn: "int (length skip) \<noteq> - 1" by simp
  have "cr_readln s1 (int (length skip)) (int (length pre) + 1) =
          Some (int (length skip) + int (length l), int (length ?pre1),
                s1\<lparr>buf_data := ?pre1 @ skip @ l @ NUL # LF # post,
                   buf_idx := int (length ?pre1) + int (length skip) + int (length l) + 2\<rparr>)"
    by (rule readln_buffered_line [OF _ _ _ line(2)]) (use len in \<open>simp_all add: s1_def\<close>)
  then have rd2: "cr_readln s1 (int (length skip)) (int (length pre) + 1)
                    = Some (int (length skip) + int (length l), int (length ?pre1), s2)"
    by (simp add: s2_def)
  have ne: "int (length skip) + int (length l) \<noteq> int (length skip)" using line(1) by simp
  have nz: "m \<noteq> 0" using m by simp
  show ?thesis
    apply (subst cr_receivemultibulk_loop.simps)
    apply (simp only: nz if_False rd option.case prod.case pos ld at nn rd2 ne
             refl if_True simp_thms)
    apply simp
    done
qed

lemma multibulk_loop_payload_missing:
  assumes data: "buf_data s = pre @ CR_BULK # decimal n @ CR # LF # post"
    and idx: "buf_idx s = int (length pre)"
    and len: "buf_len s = int (length pre) + int (length (decimal n)) + 3"
    and n: "0 < n" "int n < 2 ^ 31"
    and quiet: "no_data (sock s)"
    and m: "0 < m"
  shows "\<exists>s'. cr_receivemultibulk_loop s m i line = Some (CREDIS_ERR_PROTOCOL, s')"
proof -
  let ?dl = "decimal n"
  define s1 where "s1 = s\<lparr>buf_data := pre @ CR_BULK # ?dl @ NUL # LF # post,
                           buf_idx := int (length pre) + int (length ?dl) + 3\<rparr>"
  have len1: "int (length pre) + int (length ?dl) + 3 \<le> buf_len s" using len by simp
  note h = bulk_header_line [OF data idx len1 n(2)]
  have rd: "cr_readln s 0 line = Some (1 + int (length ?dl), int (length pre), s1)"
    using h(1) by (simp add: s1_def)
  have pos: "\<not> 1 + int (length ?dl) \<le> 0" by simp
  have ld: "load (buf_data s1) (int (length pre)) = Some CR_BULK"
    using h(2) by (simp add: s1_def)
  have at: "atoi_at (buf_data s1) (int (length pre) + 1) = Some (int n)"
    using h(3) by (simp add: s1_def)
  have nn: "int n \<noteq> - 1" by simp
  have "no_data (sock s1)" "buf_len s1 = 0 \<or> buf_len s1 \<le> buf_idx s1"
    using quiet len by (simp_all add: s1_def)
  from readln_no_data [OF this, of "int n" "int (length pre) + 1"] obtain rc2 s2 where
    rd2: "cr_readln s1 (int n) (int (length pre) + 1) = Some (rc2, int (length pre) + 1, s2)"
    and rc2: "rc2 \<le> 0"
    by blast
  have ne: "rc2 \<noteq> int n" using rc2 n(1) by simp
  have nz: "m \<noteq> 0" using m by simp
  show ?thesis
    apply (subst cr_receivemultibulk_loop.simps)
    apply (simp only: nz if_False rd option.case prod.case pos ld at nn rd2 ne
             refl if_True simp_thms)
    apply simp
    done
qed

lemma multibulk_loop_entry_missing:
  assumes used: "buf_len s = 0 \<or> buf_len s \<le> buf_idx s"
    and quiet: "no_data (sock s)"
    and m: "0 < m"
  shows "\<exists>s'. cr_receivemultibulk_loop s m i line = Some (CREDIS_ERR_PROTOCOL, s')"
proof -
  from readln_no_data [OF quiet used, of 0 line] obtain rc s1 where
    rd: "cr_readln s 0 line = Some (rc, line, s1)" and rc: "rc \<le> 0"
    by blast
  have nz: "m \<noteq> 0" using m by simp
  show ?thesis
    by (subst cr_receivemultibulk_loop.simps) (simp add: nz rd rc)
qed

lemma multibulk_loop_rejected_entry:
  assumes data: "buf_data s = pre @ wire_bad_entry d @ post"
    and idx: "buf_idx s = int (length pre)"
    and len: "buf_len s = int (length pre) + int (length (wire_bad_entry d))"
    and bound: "buf_len s < 2 ^ 31"
    and bad: "rejected_entry d (sock s)"
    and m: "0 < m"
  shows "\<exists>s'. cr_receivemultibulk_loop s m i line = Some (CREDIS_ERR_PROTOCOL, s')"
proof (cases d)
  case (Wrong_line l rest)
  show ?thesis
    by (rule multibulk_loop_wrong_line [OF _ idx _ _ _ m, of l "rest @ post"])
       (use data len bad Wrong_line in simp_all)
next
  case (Late_delimiter skip l rest)
  have small: "int (length skip) < 2 ^ 31"
    using len bound Late_delimiter by simp
  show ?thesis
    by (rule multibulk_loop_late_delimiter [OF _ idx _ _ _ small m, of l "rest @ post"])
       (use data len bad Late_delimiter in simp_all)
next
  case (Payload_missing n)
  show ?thesis
    by (rule multibulk_loop_payload_missing [OF _ idx _ _ _ _ m, of n post])
       (use data len bad Payload_missing in simp_all)
next
  case Entry_missing
  show ?thesis
    by (rule multibulk_loop_entry_missing [OF _ _ m])
       (use idx len bad Entry_missing in simp_all)
qed

lemma length_concat_terminated:
  "length (concat (map terminated_bulk es)) = length (concat (map wire_bulk es))"
  by (induction es) simp_all

lemma multibulk_reply_rejected:
  assumes sock: "sock s = Recv_data (wire_multibulk_bad K es d) # evs"
    and bad: "rejected_entry d evs"
    and short: "length es < K"
    and fits: "length (wire_multibulk_bad K es d) \<le> length (buf_data s)"
      "int (length (wire_multibulk_bad K es d)) \<le> buf_size s" "buf_size s < 2 ^ 31"
    and cap: "int K \<le> multibulk_size s" "K \<le> length (multibulk_bulks s)"
    and K: "int K < 2 ^ 31"
  shows "\<exists>s'. cr_receivereply s CR_MULTIBULK = Some (CREDIS_ERR_PROTOCOL, s') \<and>
           multibulk_len s' = multibulk_len s"
proof -
  let ?dK = "decimal K"
  let ?body = "concat (map wire_bulk es)"
  let ?bad = "wire_bad_entry d"
  let ?chunk = "CR_MULTIBULK # ?dK @ CR # LF # (?body @ ?bad)"
  let ?post = "drop (length ?chunk) (buf_data s)"
  let ?pre = "CR_MULTIBULK # ?dK @ [NUL, LF]"
  define m where "m = int K - int (length es)"
  define s1 where "s1 = s\<lparr>buf_data := CR_MULTIBULK # ?dK @ NUL # LF # (?body @ ?bad) @ ?post,
                           buf_idx := int (length ?dK) + 3,
                           buf_len := int (length ?chunk),
                           sock := evs\<rparr>"
  have chunk: "wire_multibulk_bad K es d = ?chunk" by (simp add: wire_multibulk_bad_def)
  have nocr: "\<not> has_crlf (CR_MULTIBULK # ?dK)"
    by (rule has_crlf_no_CR) (use decimal_no_CR in simp)
  have fl: "cr_readln (s\<lparr>buf_len := 0, buf_idx := 0\<rparr>) 0 0 = Some (1 + int (length ?dK), 0, s1)"
    unfolding s1_def
    by (rule first_line [OF _ nocr]) (use sock fits chunk in simp_all)
  have ld: "load (buf_data s1) 0 = Some CR_MULTIBULK"
    by (simp add: s1_def load_def)
  have bound: "int (length ?chunk) < 2 ^ 31"
    using fits(2,3) chunk by simp
  have "c_string ([CR_MULTIBULK] @ ?dK @ NUL # (LF # (?body @ ?bad) @ ?post)) (int (length [CR_MULTIBULK])) = Some ?dK"
    by (rule c_string_append) (rule decimal_no_NUL)
  then have at: "atoi_at (buf_data s1) 1 = Some (int K)"
    using atoi_decimal [OF K] by (simp add: atoi_at_def s1_def)
  have small: "\<forall>p. Some p \<in> set es \<longrightarrow> int (length p) < 2 ^ 31"
  proof (intro allI impI)
    fix p assume "Some p \<in> set es"
    from payload_le_wire [OF this] bound show "int (length p) < 2 ^ 31" by simp
  qed
  have m: "0 < m" "0 \<le> m" "int (length es) + m = int K"
    using short by (simp_all add: m_def)
  have "\<exists>s' line'. cr_receivemultibulk_loop s1 (int (length es) + m) 0 1
                      = cr_receivemultibulk_loop s' m (0 + length es) line' \<and>
           buf_data s' = ?pre @ concat (map terminated_bulk es) @ (?bad @ ?post) \<and>
           buf_idx s' = int (length ?pre) + int (length ?body) \<and>
           buf_len s' = buf_len s1 \<and> sock s' = sock s1"
    by (rule multibulk_loop_prefix [OF _ _ _ _ small m(2)])
       (use cap short in \<open>simp_all add: s1_def\<close>)
  then obtain s2 line2 where
    pre: "cr_receivemultibulk_loop s1 (int K) 0 1 = cr_receivemultibulk_loop s2 m (length es) line2"
    and d2: "buf_data s2 = ?pre @ concat (map terminated_bulk es) @ (?bad @ ?post)"
    and x2: "buf_idx s2 = int (length ?pre) + int (length ?body)"
    and l2: "buf_len s2 = buf_len s1" and k2: "sock s2 = sock s1"
    using m(3) by auto
  have "\<exists>s'. cr_receivemultibulk_loop s2 m (length es) line2 = Some (CREDIS_ERR_PROTOCOL, s')"
  proof (rule multibulk_loop_rejected_entry [OF _ _ _ _ _ m(1)])
    show "buf_data s2 = (?pre @ concat (map terminated_bulk es)) @ ?bad @ ?post"
      using d2 by simp
    show "buf_idx s2 = int (length (?pre @ concat (map terminated_bulk es)))"
      using x2 by (simp add: length_concat_terminated)
    show "buf_len s2 = int (length (?pre @ concat (map terminated_bulk es))) + int (length ?bad)"
      using l2 by (simp add: s1_def length_concat_terminated)
    show "buf_len s2 < 2 ^ 31"
      using l2 bound by (simp add: s1_def)
    show "rejected_entry d (sock s2)"
      using k2 bad by (simp add: s1_def)
  qed
  then obtain s' where run: "cr_receivemultibulk_loop s1 (int K) 0 1 = Some (CREDIS_ERR_PROTOCOL, s')"
    using pre by auto
  have "\<not> int K > multibulk_size s1"
    using cap(1) by (simp add: s1_def)
  then have mb: "cr_receivemultibulk s1 1 = Some (CREDIS_ERR_PROTOCOL, s')"
    using at run by (simp add: cr_receivemultibulk_def)
  have rr: "cr_receivereply s CR_MULTIBULK = Some (CREDIS_ERR_PROTOCOL, s')"
    using mb by (simp add: cr_receivereply_def fl ld)
  from multibulk_result_code [OF mb] have "multibulk_len s' = multibulk_len s"
    by (simp add: s1_def)
  with rr show ?thesis by blast
qed

section \<open>Claims on the multi-bulk assembler\<close>

text \<open>
  Claim C1 as stated fails: a multi-bulk reply whose entry has the malformed header
  \<open>$x\<close> is not answered with \<open>CREDIS_ERR_PROTOCOL\<close>. \<open>atoi\<close> reads the header as
  length 0, the empty line that follows is taken as the payload, and the call succeeds
  with one entry.
\<close>

theorem malformed_header_accepted:
  "map_option fst (cr_receivereply (cr_new [Recv_data malformed_header_reply]) CR_MULTIBULK)
     = Some OK \<and>
   map_option (multibulk_len \<circ> snd)
     (cr_receivereply (cr_new [Recv_data malformed_header_reply]) CR_MULTIBULK) = Some 1"
proof -
  let ?s = "cr_new [Recv_data malformed_header_reply]"
  let ?s1 = "(cr_new [])\<lparr>buf_data := ''*1'' @ NUL # LF # ''$x'' @ CR # LF # CR # LF # replicate 4086 NUL,
                           buf_idx := 4, buf_len := 10\<rparr>"
  let ?s2 = "(cr_new [])\<lparr>buf_data := ''*1'' @ NUL # LF # ''$x'' @ NUL # LF # CR # LF # replicate 4086 NUL,
                           buf_idx := 8, buf_len := 10\<rparr>"
  let ?s3 = "(cr_new [])\<lparr>buf_data := ''*1'' @ NUL # LF # ''$x'' @ NUL # LF # NUL # LF # replicate 4086 NUL,
                           buf_idx := 10, buf_len := 10\<rparr>"
  have "cr_readln (?s\<lparr>buf_len := 0, buf_idx := 0\<rparr>) 0 0 =
           Some (1 + int (length ''1''), 0,
                 ?s\<lparr>buf_data := CR_MULTIBULK # ''1'' @ NUL # LF # (''$x'' @ CR # LF # [CR, LF])
                          @ drop (length (CR_MULTIBULK # ''1'' @ CR # LF # (''$x'' @ CR # LF # [CR, LF]))) (buf_data ?s),
                   buf_idx := int (length ''1'') + 3,
                   buf_len := int (length (CR_MULTIBULK # ''1'' @ CR # LF # (''$x'' @ CR # LF # [CR, LF]))),
                   sock := []\<rparr>)"
    by (rule first_line) (simp_all add: cr_new_def malformed_header_reply_def)
  then have fl: "cr_readln (?s\<lparr>buf_len := 0, buf_idx := 0\<rparr>) 0 0 = Some (2, 0, ?s1)"
    by (simp add: cr_new_def)
  have "cr_readln ?s1 (int (length ([]::char list))) 1 =
          Some (int (length ([]::char list)) + int (length ''$x''), int (length (''*1'' @ [NUL, LF])),
                ?s1\<lparr>buf_data := (''*1'' @ [NUL, LF]) @ [] @ ''$x'' @ NUL # LF # (CR # LF # replicate 4086 NUL),
                  buf_idx := int (length (''*1'' @ [NUL, LF])) + int (length ([]::char list)) + int (length ''$x'') + 2\<rparr>)"
    by (rule readln_buffered_line) simp_all
  then have rdh: "cr_readln ?s1 0 1 = Some (2, 4, ?s2)" by simp
  have "cr_readln ?s2 (int (length ([]::char list))) 5 =
          Some (int (length ([]::char list)) + int (length ([]::char list)),
                int (length (''*1'' @ NUL # LF # ''$x'' @ [NUL, LF])),
                ?s2\<lparr>buf_data := (''*1'' @ NUL # LF # ''$x'' @ [NUL, LF]) @ [] @ [] @ NUL # LF # replicate 4086 NUL,
                  buf_idx := int (length (''*1'' @ NUL # LF # ''$x'' @ [NUL, LF]))
                     + int (length ([]::char list)) + int (length ([]::char list)) + 2\<rparr>)"
    by (rule readln_buffered_line) simp_all
  then have rdp: "cr_readln ?s2 0 5 = Some (0, 8, ?s3)" by simp
  have at1: "atoi_at (buf_data ?s1) 1 = Some 1"
    and at2: "atoi_at (buf_data ?s2) 5 = Some 0"
    by (simp_all add: atoi_at_def c_string_def atoi_def isspace_def isdigit_def)
  have "cr_receivereply ?s CR_MULTIBULK =
          Some (OK, ?s3\<lparr>multibulk_bulks := (replicate 64 None)[0 := Some 8], multibulk_len := 1\<rparr>)"
    using rdh rdp at1 at2
    unfolding cr_receivereply_def fl
    by (simp add: load_def cr_receivemultibulk_def set_bulk_def cr_new_def
          cr_receivemultibulk_loop.simps [of _ 1] cr_receivemultibulk_loop.simps [of _ 0])
  then show ?thesis by simp
qed

lemma truncated_multibulk_run:
  "cr_receivemultibulk truncated_multibulk_state 1 =
     Some (CREDIS_ERR_PROTOCOL, truncated_multibulk_final)"
proof -
  let ?t = truncated_multibulk_state
  let ?t2 = "?t\<lparr>buf_data := (''*2'' @ [NUL, LF]) @ CR_BULK # decimal (length ''foo'') @ NUL # LF # ''foo''
                               @ NUL # LF # replicate 4083 NUL,
                  buf_idx := int (length (''*2'' @ [NUL, LF])) + int (length (wire_bulk (Some ''foo''))),
                  multibulk_bulks := (multibulk_bulks ?t)
                     [0 := Some (int (length (''*2'' @ [NUL, LF]) + length (decimal (length ''foo'')) + 3))]\<rparr>"
  have d3: "decimal (Suc (Suc (Suc 0))) = ''3''"
    by (simp add: decimal.simps char_of_def bit_Suc_0_iff)
  have at: "atoi_at (buf_data ?t) 1 = Some 2"
    by (simp add: truncated_multibulk_state_def atoi_at_def c_string_def atoi_def isspace_def isdigit_def)
  have step: "cr_receivemultibulk_loop ?t 2 0 1 =
              cr_receivemultibulk_loop ?t2 (2 - 1) (Suc 0)
                (int (length (''*2'' @ [NUL, LF]) + length (decimal (length ''foo'')) + 3))"
    by (rule multibulk_loop_bulk_step)
       (simp_all add: truncated_multibulk_state_def cr_new_def d3)
  have t2: "?t2 = (cr_new [])\<lparr>buf_data := ''*2'' @ NUL # LF # ''$3'' @ NUL # LF # ''foo'' @ NUL # LF # replicate 4083 NUL,
                 buf_idx := 13, buf_len := 13,
                 multibulk_bulks := (replicate 64 None)[0 := Some 8]\<rparr>"
    by (simp add: truncated_multibulk_state_def cr_new_def d3)
  have "cr_receivemultibulk_loop ?t 2 0 1 = Some (CREDIS_ERR_PROTOCOL, truncated_multibulk_final)"
    unfolding step t2
    by (simp add: cr_receivemultibulk_loop.simps [of _ 1] cr_readln_def cr_receivedata_def
          cr_new_def truncated_multibulk_final_def d3)
  then show ?thesis
    using at by (simp add: cr_receivemultibulk_def truncated_multibulk_state_def cr_new_def)
qed

text \<open>
  Claim C1, amended. Let a multi-bulk reply arrive in one chunk that fits the buffer,
  with a declared count K that fits an \<open>int\<close> and is no larger than \<open>multibulk.size\<close>
  and than the number of pointers the array \<open>bulks\<close> holds (64 both on a handle from
  \<open>cr_new\<close>; the array holds fewer once a reply has announced more than
  \<open>multibulk.size\<close> entries). If the chunk carries K well-formed bulks with no NUL byte
  in a payload, \<open>cr_receivereply\<close> succeeds with \<open>multibulk.len = K\<close> and the K entries
  read back in wire order, a declared length of -1 as \<open>NULL\<close>. If it carries fewer than
  K well-formed bulks and then an entry that is malformed or cannot be read in one of
  the ways of \<open>rejected_entry\<close> (a line that is empty or does not start with \<open>$\<close>; a
  payload whose delimiter comes later than the declared length; at the end of the chunk,
  with no data to come from the socket, a header that declares a positive length, or no
  entry at all), \<open>cr_receivereply\<close> returns \<open>CREDIS_ERR_PROTOCOL\<close> and
  \<open>multibulk.len\<close> is as it was. Every call of \<open>cr_receivemultibulk\<close> that returns,
  returns 0 or \<open>CREDIS_ERR_PROTOCOL\<close>: 0 only with \<open>multibulk.len\<close> equal to the
  declared count, which is then not negative (never a part of the entries), and
  \<open>CREDIS_ERR_PROTOCOL\<close> with \<open>multibulk.len\<close> as it was.
\<close>

theorem multibulk_assembly:
  assumes sock: "sock s = Recv_data (wire_multibulk es) # evs"
    and fits: "length (wire_multibulk es) \<le> length (buf_data s)"
      "int (length (wire_multibulk es)) \<le> buf_size s" "buf_size s < 2 ^ 31"
    and cap: "int (length es) \<le> multibulk_size s" "length es \<le> length (multibulk_bulks s)"
    and nul: "NUL \<notin> set (concat (map payload es))"
    and bsock: "sock u = Recv_data (wire_multibulk_bad K ds d) # evs'"
    and bad: "rejected_entry d evs'" "length ds < K"
    and bfits: "length (wire_multibulk_bad K ds d) \<le> length (buf_data u)"
      "int (length (wire_multibulk_bad K ds d)) \<le> buf_size u" "buf_size u < 2 ^ 31"
    and bcap: "int K \<le> multibulk_size u" "K \<le> length (multibulk_bulks u)" "int K < 2 ^ 31"
    and run: "cr_receivemultibulk t line = Some (rc, t')"
  shows "(\<exists>s'. cr_receivereply s CR_MULTIBULK = Some (OK, s') \<and>
            multibulk_len s' = int (length es) \<and> multibulk_result s' = map Some es) \<and>
         (\<exists>u'. cr_receivereply u CR_MULTIBULK = Some (CREDIS_ERR_PROTOCOL, u') \<and>
            multibulk_len u' = multibulk_len u) \<and>
         (rc = OK \<and> atoi_at (buf_data t) line = Some (multibulk_len t') \<and> 0 \<le> multibulk_len t' \<or>
          rc = CREDIS_ERR_PROTOCOL \<and> multibulk_len t' = multibulk_len t)"
  using multibulk_reply_wire [OF sock fits cap nul]
    multibulk_reply_rejected [OF bsock bad bfits bcap]
    multibulk_result_code [OF run]
  by blast

theorem multibulk_assembly_witness:
  "sock (cr_new [Recv_data (wire_multibulk [Some ''foo'', None])])
     = Recv_data (wire_multibulk [Some ''foo'', None]) # [] \<and>
   length (wire_multibulk [Some ''foo'', None])
     \<le> length (buf_data (cr_new [Recv_data (wire_multibulk [Some ''foo'', None])])) \<and>
   int (length (wire_multibulk [Some ''foo'', None]))
     \<le> buf_size (cr_new [Recv_data (wire_multibulk [Some ''foo'', None])]) \<and>
   buf_size (cr_new [Recv_data (wire_multibulk [Some ''foo'', None])]) < 2 ^ 31 \<and>
   int (length [Some ''foo'', None])
     \<le> multibulk_size (cr_new [Recv_data (wire_multibulk [Some ''foo'', None])]) \<and>
   length [Some ''foo'', None]
     \<le> length (multibulk_bulks (cr_new [Recv_data (wire_multibulk [Some ''foo'', None])])) \<and>
   NUL \<notin> set (concat (map payload [Some ''foo'', None])) \<and>
   sock (cr_new [Recv_data (wire_multibulk_bad 2 [Some ''foo''] (Late_delimiter ''ba'' ''r'' []))])
     = Recv_data (wire_multibulk_bad 2 [Some ''foo''] (Late_delimiter ''ba'' ''r'' [])) # [] \<and>
   rejected_entry (Late_delimiter ''ba'' ''r'' []) [] \<and>
   length [Some ''foo''] < 2 \<and>
   length (wire_multibulk_bad 2 [Some ''foo''] (Late_delimiter ''ba'' ''r'' []))
     \<le> length (buf_data (cr_new [Recv_data (wire_multibulk_bad 2 [Some ''foo''] (Late_delimiter ''ba'' ''r'' []))])) \<and>
   int (length (wire_multibulk_bad 2 [Some ''foo''] (Late_delimiter ''ba'' ''r'' [])))
     \<le> buf_size (cr_new [Recv_data (wire_multibulk_bad 2 [Some ''foo''] (Late_delimiter ''ba'' ''r'' []))]) \<and>
   buf_size (cr_new [Recv_data (wire_multibulk_bad 2 [Some ''foo''] (Late_delimiter ''ba'' ''r'' []))]) < 2 ^ 31 \<and>
   int 2 \<le> multibulk_size (cr_new [Recv_data (wire_multibulk_bad 2 [Some ''foo''] (Late_delimiter ''ba'' ''r'' []))]) \<and>
   2 \<le> length (multibulk_bulks (cr_new [Recv_data (wire_multibulk_bad 2 [Some ''foo''] (Late_delimiter ''ba'' ''r'' []))])) \<and>
   int 2 < 2 ^ 31 \<and>
   cr_receivemultibulk truncated_multibulk_state 1
     = Some (CREDIS_ERR_PROTOCOL, truncated_multibulk_final) \<and>
   wire_multibulk [Some ''foo'', None]
     = ''*2'' @ CR # LF # ''$3'' @ CR # LF # ''foo'' @ CR # LF # ''$-1'' @ [CR, LF] \<and>
   wire_multibulk_bad 2 [Some ''foo''] (Late_delimiter ''ba'' ''r'' [])
     = ''*2'' @ CR # LF # ''$3'' @ CR # LF # ''foo'' @ CR # LF # ''$2'' @ CR # LF # ''bar'' @ [CR, LF] \<and>
   ((\<exists>s'. cr_receivereply (cr_new [Recv_data (wire_multibulk [Some ''foo'', None])]) CR_MULTIBULK
            = Some (OK, s') \<and>
          multibulk_len s' = int (length [Some ''foo'', None]) \<and>
          multibulk_result s' = map Some [Some ''foo'', None]) \<and>
    (\<exists>u'. cr_receivereply
             (cr_new [Recv_data (wire_multibulk_bad 2 [Some ''foo''] (Late_delimiter ''ba'' ''r'' []))])
             CR_MULTIBULK = Some (CREDIS_ERR_PROTOCOL, u') \<and>
          multibulk_len u'
            = multibulk_len (cr_new [Recv_data (wire_multibulk_bad 2 [Some ''foo''] (Late_delimiter ''ba'' ''r'' []))])) \<and>
    (CREDIS_ERR_PROTOCOL = OK \<and>
       atoi_at (buf_data truncated_multibulk_state) 1 = Some (multibulk_len truncated_multibulk_final) \<and>
       0 \<le> multibulk_len truncated_multibulk_final \<or>
     CREDIS_ERR_PROTOCOL = CREDIS_ERR_PROTOCOL \<and>
       multibulk_len truncated_multibulk_final = multibulk_len truncated_multibulk_state))"
proof -
  let ?es = "[Some ''foo'', None]"
  let ?s = "cr_new [Recv_data (wire_multibulk ?es)]"
  let ?d = "Late_delimiter ''ba'' ''r'' []"
  let ?w = "wire_multibulk_bad 2 [Some ''foo''] ?d"
  let ?u = "cr_new [Recv_data ?w]"
  have d2: "decimal 2 = ''2''" "decimal (Suc (Suc 0)) = ''2''"
    "decimal (Suc (Suc (Suc 0))) = ''3''"
    by (simp_all add: decimal.simps char_of_def bit_Suc_0_iff)
  have w: "wire_multibulk ?es = ''*2'' @ CR # LF # ''$3'' @ CR # LF # ''foo'' @ CR # LF # ''$-1'' @ [CR, LF]"
    by (simp add: wire_multibulk_def d2)
  have wb: "?w = ''*2'' @ CR # LF # ''$3'' @ CR # LF # ''foo'' @ CR # LF # ''$2'' @ CR # LF # ''bar'' @ [CR, LF]"
    by (simp add: wire_multibulk_bad_def d2)
  have h1: "sock ?s = Recv_data (wire_multibulk ?es) # []"
    by (simp add: cr_new_def)
  have h2: "length (wire_multibulk ?es) \<le> length (buf_data ?s)"
    by (simp add: w cr_new_def)
  have h3: "int (length (wire_multibulk ?es)) \<le> buf_size ?s"
    by (simp add: w cr_new_def)
  have h4: "buf_size ?s < 2 ^ 31"
    by (simp add: cr_new_def)
  have h5: "int (length ?es) \<le> multibulk_size ?s"
    by (simp add: cr_new_def)
  have h6: "length ?es \<le> length (multibulk_bulks ?s)"
    by (simp add: cr_new_def)
  have h7: "NUL \<notin> set (concat (map payload ?es))"
    by simp
  have b1: "sock ?u = Recv_data ?w # []"
    by (simp add: cr_new_def)
  have b2: "rejected_entry ?d []"
    by simp
  have b3: "length [Some ''foo''] < 2"
    by simp
  have b4: "length ?w \<le> length (buf_data ?u)"
    by (simp add: wb cr_new_def)
  have b5: "int (length ?w) \<le> buf_size ?u"
    by (simp add: wb cr_new_def)
  have b6: "buf_size ?u < 2 ^ 31"
    by (simp add: cr_new_def)
  have b7: "int 2 \<le> multibulk_size ?u"
    by (simp add: cr_new_def)
  have b8: "2 \<le> length (multibulk_bulks ?u)"
    by (simp add: cr_new_def)
  have b9: "int 2 < 2 ^ 31"
    by simp
  note r = truncated_multibulk_run
  note c = multibulk_assembly [OF h1 h2 h3 h4 h5 h6 h7 b1 b2 b3 b4 b5 b6 b7 b8 b9 r]
  show ?thesis
    by (rule conjI [OF h1 conjI [OF h2 conjI [OF h3 conjI [OF h4 conjI [OF h5
          conjI [OF h6 conjI [OF h7 conjI [OF b1 conjI [OF b2 conjI [OF b3 conjI [OF b4
          conjI [OF b5 conjI [OF b6 conjI [OF b7 conjI [OF b8 conjI [OF b9
          conjI [OF r conjI [OF w conjI [OF wb c]]]]]]]]]]]]]]]]]]])
qed

text \<open>
  Beyond \<open>multibulk.size\<close> entries the amended statement says nothing: the array is
  then reallocated to \<open>nsize\<close> bytes, not \<open>nsize\<close> pointers, which is too small for
  the declared count, and a write behind the array is undefined.
\<close>

lemma realloc_too_small:
  assumes "64 < bnum"
  shows "length (realloc_bulks bulks ((bnum sdiv CR_MULTIBULK_SIZE + 1) * CR_MULTIBULK_SIZE)) < nat bnum"
proof -
  have "bnum sdiv 64 = bnum div 64"
    using assms by (simp add: signed_divide_int_def sgn_if)
  then show ?thesis
    using assms by (simp add: realloc_bulks_def sizeof_char_ptr_def Let_def)
qed

lemma set_bulk_overrun: "length (multibulk_bulks s) \<le> i \<Longrightarrow> set_bulk s i v = None"
  by (simp add: set_bulk_def)

text \<open>
  The array of a fresh handle after a reply that announces 65 entries: 128 bytes, which
  hold 16 pointers, while \<open>multibulk.size\<close> still says 64.
\<close>

lemma realloc_after_65:
  "length (realloc_bulks (replicate 64 None) ((65 sdiv CR_MULTIBULK_SIZE + 1) * CR_MULTIBULK_SIZE)) = 16"
  by (simp add: realloc_bulks_def sizeof_char_ptr_def signed_divide_int_def)

text \<open>
  Claim C10. A multi-bulk reply whose count parses to 0 succeeds at once with a recorded
  length of 0: the socket, the buffer and its cursor are as before, so no line was read
  and nothing was received.
\<close>

theorem multibulk_count_zero:
  assumes "atoi_at (buf_data s) line = Some 0"
  shows "\<exists>s'. cr_receivemultibulk s line = Some (OK, s') \<and> multibulk_len s' = 0 \<and>
           sock s' = sock s \<and> buf_data s' = buf_data s \<and>
           buf_idx s' = buf_idx s \<and> buf_len s' = buf_len s"
  using assms
  by (simp add: cr_receivemultibulk_def cr_receivemultibulk_loop.simps [of _ 0]
       signed_divide_int_def)

theorem multibulk_count_zero_witness:
  "atoi_at (buf_data ((cr_new [])\<lparr>buf_data := ''*0'' @ NUL # LF # replicate 4092 NUL,
                                 buf_idx := 4, buf_len := 4\<rparr>)) 1 = Some 0 \<and>
   (\<exists>s'. cr_receivemultibulk ((cr_new [])\<lparr>buf_data := ''*0'' @ NUL # LF # replicate 4092 NUL,
                                 buf_idx := 4, buf_len := 4\<rparr>) 1 = Some (OK, s') \<and>
      multibulk_len s' = 0 \<and> sock s' = [] \<and> buf_idx s' = 4 \<and> buf_len s' = 4)"
proof -
  let ?s = "(cr_new [])\<lparr>buf_data := ''*0'' @ NUL # LF # replicate 4092 NUL,
                                 buf_idx := 4, buf_len := 4\<rparr>"
  have h: "atoi_at (buf_data ?s) 1 = Some 0"
    by (simp add: atoi_at_def c_string_def atoi_def isspace_def isdigit_def)
  from multibulk_count_zero [OF h] h show ?thesis
    by (auto simp: cr_new_def)
qed

section \<open>Claims on the line reader\<close>

lemma findnl_trace_reads_range:
  "1 \<le> len \<Longrightarrow> p \<in> set (snd (cr_findnl_trace mem buf len)) \<Longrightarrow> buf \<le> p \<and> p < buf + len"
proof (induction mem buf len rule: cr_findnl_trace.induct)
  case (1 mem buf len)
  show ?case
  proof (cases "len - 1 = 0")
    case True
    with "1.prems" show ?thesis by (simp add: cr_findnl_trace.simps [of mem buf len])
  next
    case ne: False
    then have len2: "1 \<le> len - 1" using "1.prems"(1) by simp
    show ?thesis
    proof (cases "load mem buf")
      case None
      with ne "1.prems" show ?thesis by (simp add: cr_findnl_trace.simps [of mem buf len])
    next
      case (Some c)
      show ?thesis
      proof (cases "c = CR")
        case cr: True
        show ?thesis
        proof (cases "load mem (buf + 1)")
          case None
          with ne Some cr "1.prems" show ?thesis
            by (auto simp: cr_findnl_trace.simps [of mem buf len])
        next
          case d: (Some d)
          show ?thesis
          proof (cases "d = LF")
            case True
            with ne Some cr d "1.prems" show ?thesis
              by (auto simp: cr_findnl_trace.simps [of mem buf len])
          next
            case False
            with ne Some cr d "1.prems"(2)
            have "p = buf \<or> p = buf + 1 \<or> p \<in> set (snd (cr_findnl_trace mem (buf + 1) (len - 1)))"
              by (auto simp: cr_findnl_trace.simps [of mem buf len] split: prod.splits)
            with "1.IH"(1) [OF ne Some cr d False len2] len2 show ?thesis by auto
          qed
        qed
      next
        case False
        with ne Some "1.prems"(2)
        have "p = buf \<or> p \<in> set (snd (cr_findnl_trace mem (buf + 1) (len - 1)))"
          by (auto simp: cr_findnl_trace.simps [of mem buf len] split: prod.splits)
        with "1.IH"(2) [OF ne Some False len2] len2 show ?thesis by auto
      qed
    qed
  qed
qed

lemma readln_scan_reads_range:
  assumes "buf_idx s < buf_len s" and "p \<in> set (cr_readln_scan_reads s start)"
  shows "buf_idx s + start \<le> p \<and> p < buf_len s + start"
  using findnl_trace_reads_range [of "buf_len s - buf_idx s" p "buf_data s" "buf_idx s + start"] assms
  by (simp add: cr_readln_scan_reads_def cr_findnl_reads_def)

text \<open>
  Claim C2 fails on the code. After the header of a bulk reply that declares 3 bytes,
  with only \<open>fo\<close> of the payload received, the buffer holds 6 bytes; the search of
  \<open>cr_readln\<close> with \<open>start = 3\<close> dereferences offset 7. In general the search covers
  \<open>[idx + start, len + start)\<close> (\<open>readln_scan_reads_range\<close>): the length it passes to
  \<open>cr_findnl\<close> is not reduced by \<open>start\<close>.
\<close>

theorem short_bulk_reads_past_len:
  "cr_readln (cr_new [Recv_data (''$3'' @ CR # LF # ''fo'')]) 0 0 = Some (2, 0, short_bulk_state) \<and>
   cr_readln_scan_reads short_bulk_state 3 = [7] \<and> buf_len short_bulk_state = 6"
proof -
  let ?s = "cr_new [Recv_data (''$3'' @ CR # LF # ''fo'')]"
  have "cr_readln ?s (int (length ([]::char list))) 0 =
           Some (int (length ([]::char list)) + int (length ''$3''), 0,
                 ?s\<lparr>buf_data := [] @ ''$3'' @ NUL # LF # ''fo''
                          @ drop (length ([] @ ''$3'' @ CR # LF # ''fo'')) (buf_data ?s),
                   buf_idx := int (length ([]::char list)) + int (length ''$3'') + 2,
                   buf_len := int (length ([] @ ''$3'' @ CR # LF # ''fo'')),
                   sock := []\<rparr>)"
    by (rule readln_received_line) (simp_all add: cr_new_def)
  then have a: "cr_readln ?s 0 0 = Some (2, 0, short_bulk_state)"
    by (simp add: cr_new_def short_bulk_state_def)
  have b: "cr_readln_scan_reads short_bulk_state 3 = [7]"
    by (simp add: cr_readln_scan_reads_def cr_findnl_reads_def short_bulk_state_def cr_new_def
        cr_findnl_trace.simps [of _ 7 2] cr_findnl_trace.simps [of _ 8 1] load_def nth_append)
  have c: "buf_len short_bulk_state = 6"
    by (simp add: short_bulk_state_def)
  show ?thesis by (rule conjI [OF a conjI [OF b c]])
qed

text \<open>
  What the read past \<open>len\<close> can do: with \<open>KEYS abcdef\<close> left in the buffer by the
  send path, a multi-bulk reply cut off after \<open>$3\<close>, \<open>fo\<close> finds the CR and LF of the
  old command where the delimiter of the entry should be, and succeeds with the entry
  \<open>fof\<close>.
\<close>

lemma truncated_entry_matches_stale_bytes:
  "map_option (\<lambda>(rc, s). (rc, multibulk_len s, multibulk_result s))
     (cr_receivereply
        (stale_command_handle [Recv_data (''*1'' @ CR # LF # ''$3'' @ CR # LF # ''fo'')])
        CR_MULTIBULK)
   = Some (OK, 1, [Some (Some ''fof'')])"
proof -
  let ?s = "stale_command_handle [Recv_data (''*1'' @ CR # LF # ''$3'' @ CR # LF # ''fo'')]"
  let ?s1 = "(cr_new [])\<lparr>buf_data := ''*1'' @ NUL # LF # ''$3'' @ CR # LF # ''fo'' @ CHR ''f'' # CR # LF # replicate 4083 NUL,
                           buf_idx := 4, buf_len := 10\<rparr>"
  let ?s2 = "(cr_new [])\<lparr>buf_data := ''*1'' @ NUL # LF # ''$3'' @ NUL # LF # ''fo'' @ CHR ''f'' # CR # LF # replicate 4083 NUL,
                           buf_idx := 8, buf_len := 10\<rparr>"
  let ?s3 = "(cr_new [])\<lparr>buf_data := ''*1'' @ NUL # LF # ''$3'' @ NUL # LF # ''fo'' @ CHR ''f'' # NUL # LF # replicate 4083 NUL,
                           buf_idx := 13, buf_len := 10\<rparr>"
  have "cr_readln (?s\<lparr>buf_len := 0, buf_idx := 0\<rparr>) 0 0 =
           Some (1 + int (length ''1''), 0,
                 ?s\<lparr>buf_data := CR_MULTIBULK # ''1'' @ NUL # LF # (''$3'' @ CR # LF # ''fo'')
                          @ drop (length (CR_MULTIBULK # ''1'' @ CR # LF # (''$3'' @ CR # LF # ''fo''))) (buf_data ?s),
                   buf_idx := int (length ''1'') + 3,
                   buf_len := int (length (CR_MULTIBULK # ''1'' @ CR # LF # (''$3'' @ CR # LF # ''fo''))),
                   sock := []\<rparr>)"
    by (rule first_line) (simp_all add: cr_new_def stale_command_handle_def)
  then have fl: "cr_readln (?s\<lparr>buf_len := 0, buf_idx := 0\<rparr>) 0 0 = Some (2, 0, ?s1)"
    by (simp add: cr_new_def stale_command_handle_def)
  have "cr_readln ?s1 (int (length ([]::char list))) 1 =
          Some (int (length ([]::char list)) + int (length ''$3''), int (length (''*1'' @ [NUL, LF])),
                ?s1\<lparr>buf_data := (''*1'' @ [NUL, LF]) @ [] @ ''$3'' @ NUL # LF
                                     # (''fo'' @ CHR ''f'' # CR # LF # replicate 4083 NUL),
                  buf_idx := int (length (''*1'' @ [NUL, LF])) + int (length ([]::char list)) + int (length ''$3'') + 2\<rparr>)"
    by (rule readln_buffered_line) simp_all
  then have rdh: "cr_readln ?s1 0 1 = Some (2, 4, ?s2)" by simp
  have rdp: "cr_readln ?s2 3 5 = Some (3, 8, ?s3)"
    by (simp add: cr_readln_def cr_readln_scan_def cr_findnl_def cr_new_def
          cr_findnl_trace.simps [of _ 11 2] load_def store_def)
  have at1: "atoi_at (buf_data ?s1) 1 = Some 1"
    and at2: "atoi_at (buf_data ?s2) 5 = Some 3"
    by (simp_all add: atoi_at_def c_string_def atoi_def isspace_def isdigit_def)
  have "cr_receivereply ?s CR_MULTIBULK =
          Some (OK, ?s3\<lparr>multibulk_bulks := (replicate 64 None)[0 := Some 8], multibulk_len := 1\<rparr>)"
    using rdh rdp at1 at2
    unfolding cr_receivereply_def fl
    by (simp add: load_def cr_receivemultibulk_def set_bulk_def cr_new_def
          cr_receivemultibulk_loop.simps [of _ 1] cr_receivemultibulk_loop.simps [of _ 0])
  then show ?thesis
    by (simp add: multibulk_result_def c_string_def take_Suc_conv_app_nth)
qed

section \<open>Claims on the bulk handler\<close>

lemma null_bulk_first_line:
  "cr_readln ((cr_new (Recv_data null_bulk_reply # es))\<lparr>buf_len := 0, buf_idx := 0\<rparr>) 0 0 =
     Some (3, 0, (cr_new es)\<lparr>buf_data := ''$-1'' @ NUL # LF # replicate 4091 NUL,
                              buf_idx := 5, buf_len := 5\<rparr>)"
proof -
  let ?s = "cr_new (Recv_data null_bulk_reply # es)"
  have "cr_readln (?s\<lparr>buf_len := 0, buf_idx := 0\<rparr>) 0 0 =
           Some (1 + int (length ''-1''), 0,
                 ?s\<lparr>buf_data := CR_BULK # ''-1'' @ NUL # LF # []
                                  @ drop (length (CR_BULK # ''-1'' @ CR # LF # [])) (buf_data ?s),
                   buf_idx := int (length ''-1'') + 3,
                   buf_len := int (length (CR_BULK # ''-1'' @ CR # LF # [])),
                   sock := es\<rparr>)"
    by (rule first_line) (simp_all add: cr_new_def null_bulk_reply_def)
  then show ?thesis by (simp add: cr_new_def)
qed

text \<open>
  Claim C3 fails on the code. \<open>cr_receivebulk\<close> has no case for a declared length of -1
  (\<open>cr_receivemultibulk\<close> has one): it calls \<open>cr_readln\<close> with \<open>start = -1\<close>, which
  finds the buffer used up and waits for more. After the null bulk reply, a peer that
  stays silent gives \<open>CREDIS_ERR_PROTOCOL\<close>; a peer that closes gives success with
  \<open>reply.bulk\<close> pointing at the text \<open>-1\<close> of the header, not \<open>NULL\<close>.
\<close>

theorem null_bulk_not_decoded:
  "cr_receivereply (cr_new [Recv_data null_bulk_reply]) CR_BULK =
     Some (CREDIS_ERR_PROTOCOL,
           (cr_new [])\<lparr>buf_data := ''$-1'' @ NUL # LF # replicate 4091 NUL\<rparr>) \<and>
   cr_receivereply (cr_new [Recv_data null_bulk_reply, Recv_closed]) CR_BULK =
     Some (OK, (cr_new [])\<lparr>buf_data := ''$-1'' @ NUL # LF # replicate 4091 NUL,
                            reply_bulk := Some 1\<rparr>)"
proof -
  have a: "cr_receivereply (cr_new [Recv_data null_bulk_reply]) CR_BULK =
     Some (CREDIS_ERR_PROTOCOL,
           (cr_new [])\<lparr>buf_data := ''$-1'' @ NUL # LF # replicate 4091 NUL\<rparr>)"
    unfolding cr_receivereply_def null_bulk_first_line
    by (simp add: load_def cr_receivebulk_def atoi_at_def c_string_def atoi_def
        isspace_def isdigit_def cr_readln_def cr_receivedata_def cr_new_def)
  have b: "cr_receivereply (cr_new [Recv_data null_bulk_reply, Recv_closed]) CR_BULK =
     Some (OK, (cr_new [])\<lparr>buf_data := ''$-1'' @ NUL # LF # replicate 4091 NUL,
                            reply_bulk := Some 1\<rparr>)"
    unfolding cr_receivereply_def null_bulk_first_line
    by (simp add: load_def cr_receivebulk_def atoi_at_def c_string_def atoi_def
        isspace_def isdigit_def cr_readln_def cr_receivedata_def cr_new_def)
  show ?thesis by (rule conjI [OF a b])
qed

lemma long_bulk_first_line:
  "cr_readln ((cr_new (Recv_data long_bulk_reply # es))\<lparr>buf_len := 0, buf_idx := 0\<rparr>) 0 0 =
     Some (2, 0, (cr_new es)\<lparr>buf_data := ''$3'' @ NUL # LF # ''foobar'' @ CR # LF # replicate 4084 NUL,
                              buf_idx := 4, buf_len := 12\<rparr>)"
proof -
  let ?s = "cr_new (Recv_data long_bulk_reply # es)"
  have "cr_readln (?s\<lparr>buf_len := 0, buf_idx := 0\<rparr>) 0 0 =
           Some (1 + int (length ''3''), 0,
                 ?s\<lparr>buf_data := CR_BULK # ''3'' @ NUL # LF # (''foobar'' @ [CR, LF])
                                  @ drop (length (CR_BULK # ''3'' @ CR # LF # (''foobar'' @ [CR, LF]))) (buf_data ?s),
                   buf_idx := int (length ''3'') + 3,
                   buf_len := int (length (CR_BULK # ''3'' @ CR # LF # (''foobar'' @ [CR, LF]))),
                   sock := es\<rparr>)"
    by (rule first_line) (simp_all add: cr_new_def long_bulk_reply_def)
  then show ?thesis by (simp add: cr_new_def)
qed

lemma long_bulk_payload:
  "cr_readln ((cr_new es)\<lparr>buf_data := ''$3'' @ NUL # LF # ''foobar'' @ CR # LF # replicate 4084 NUL,
                              buf_idx := 4, buf_len := 12\<rparr>) 3 1 =
     Some (6, 4, (cr_new es)\<lparr>buf_data := ''$3'' @ NUL # LF # ''foobar'' @ NUL # LF # replicate 4084 NUL,
                              buf_idx := 12, buf_len := 12\<rparr>)"
proof -
  let ?s = "(cr_new es)\<lparr>buf_data := ''$3'' @ NUL # LF # ''foobar'' @ CR # LF # replicate 4084 NUL,
                              buf_idx := 4, buf_len := 12\<rparr>"
  have "cr_readln ?s (int (length ''foo'')) 1 =
          Some (int (length ''foo'') + int (length ''bar''), int (length (''$3'' @ [NUL, LF])),
                 ?s\<lparr>buf_data := (''$3'' @ [NUL, LF]) @ ''foo'' @ ''bar'' @ NUL # LF # replicate 4084 NUL,
                   buf_idx := int (length (''$3'' @ [NUL, LF])) + int (length ''foo'') + int (length ''bar'') + 2\<rparr>)"
    by (rule readln_buffered_line) simp_all
  then show ?thesis by simp
qed

text \<open>
  Claim C4 fails on the code. \<open>cr_receivebulk\<close> accepts any line \<open>cr_readln\<close> returns
  (\<open>>= 0\<close>) and does not compare its length with the declared one
  (\<open>cr_receivemultibulk\<close> does): a reply that declares 3 bytes and carries \<open>foobar\<close>
  succeeds with a bulk of 6 bytes.
\<close>

theorem long_bulk_accepted:
  "cr_receivereply (cr_new [Recv_data long_bulk_reply]) CR_BULK =
     Some (OK, (cr_new [])\<lparr>buf_data := ''$3'' @ NUL # LF # ''foobar'' @ NUL # LF # replicate 4084 NUL,
                            buf_idx := 12, buf_len := 12, reply_bulk := Some 4\<rparr>) \<and>
   c_string (''$3'' @ NUL # LF # ''foobar'' @ NUL # LF # replicate 4084 NUL) 4 = Some ''foobar''"
proof -
  have a: "atoi_at (''$3'' @ NUL # LF # ''foobar'' @ CR # LF # replicate 4084 NUL) 1 = Some 3"
    by (simp add: atoi_at_def c_string_def atoi_def isspace_def isdigit_def)
  have "cr_receivereply (cr_new [Recv_data long_bulk_reply]) CR_BULK =
     Some (OK, (cr_new [])\<lparr>buf_data := ''$3'' @ NUL # LF # ''foobar'' @ NUL # LF # replicate 4084 NUL,
                            buf_idx := 12, buf_len := 12, reply_bulk := Some 4\<rparr>)"
    using a long_bulk_payload [of "[]"]
    unfolding cr_receivereply_def long_bulk_first_line
    by (simp add: load_def cr_receivebulk_def)
  moreover have "c_string (''$3'' @ NUL # LF # ''foobar'' @ NUL # LF # replicate 4084 NUL) 4 = Some ''foobar''"
    by (simp add: c_string_def)
  ultimately show ?thesis by blast
qed

section \<open>Claims on the reply dispatcher\<close>

lemma bulk_foo_first_line:
  "cr_readln ((cr_new [Recv_data bulk_foo_reply])\<lparr>buf_len := 0, buf_idx := 0\<rparr>) 0 0 =
     Some (2, 0, bulk_foo_line_state)"
proof -
  let ?s = "cr_new [Recv_data bulk_foo_reply]"
  have "cr_readln (?s\<lparr>buf_len := 0, buf_idx := 0\<rparr>) 0 0 =
           Some (1 + int (length ''3''), 0,
                 ?s\<lparr>buf_data := CR_BULK # ''3'' @ NUL # LF # (''foo'' @ [CR, LF])
                          @ drop (length (CR_BULK # ''3'' @ CR # LF # (''foo'' @ [CR, LF]))) (buf_data ?s),
                   buf_idx := int (length ''3'') + 3,
                   buf_len := int (length (CR_BULK # ''3'' @ CR # LF # (''foo'' @ [CR, LF]))),
                   sock := []\<rparr>)"
    by (rule first_line) (simp_all add: cr_new_def bulk_foo_reply_def)
  then show ?thesis by (simp add: cr_new_def bulk_foo_line_state_def)
qed

text \<open>
  Claim C5. A reply whose first line starts with a byte that is neither the tag the
  caller expects nor the error tag makes \<open>cr_receivereply\<close> return
  \<open>CREDIS_ERR_PROTOCOL\<close>; so does a bulk reply received where an integer is expected.
  The line is the start of the first chunk the socket delivers, and the chunk fits the
  buffer.
\<close>

theorem tag_mismatch_protocol_error:
  assumes sock: "sock s = Recv_data (tag # text @ CR # LF # rest) # es"
    and line: "\<not> has_crlf (tag # text)"
    and fits: "length (tag # text @ CR # LF # rest) \<le> length (buf_data s)"
      "int (length (tag # text @ CR # LF # rest)) \<le> buf_size s"
    and tag: "tag \<noteq> recvtype" "tag \<noteq> CR_ERROR"
  shows "\<exists>s'. cr_receivereply s recvtype = Some (CREDIS_ERR_PROTOCOL, s')"
  using tag
  by (simp add: cr_receivereply_def first_line [OF sock line fits] load_def)

theorem tag_mismatch_protocol_error_witness:
  "sock (cr_new [Recv_data bulk_foo_reply])
     = Recv_data (CR_BULK # ''3'' @ CR # LF # ''foo'' @ [CR, LF]) # [] \<and>
   \<not> has_crlf (CR_BULK # ''3'') \<and>
   length (CR_BULK # ''3'' @ CR # LF # ''foo'' @ [CR, LF])
     \<le> length (buf_data (cr_new [Recv_data bulk_foo_reply])) \<and>
   int (length (CR_BULK # ''3'' @ CR # LF # ''foo'' @ [CR, LF]))
     \<le> buf_size (cr_new [Recv_data bulk_foo_reply]) \<and>
   CR_BULK \<noteq> CR_INT \<and> CR_BULK \<noteq> CR_ERROR \<and>
   (\<exists>s'. cr_receivereply (cr_new [Recv_data bulk_foo_reply]) CR_INT
           = Some (CREDIS_ERR_PROTOCOL, s'))"
proof -
  let ?s = "cr_new [Recv_data bulk_foo_reply]"
  have h1: "sock ?s = Recv_data (CR_BULK # ''3'' @ CR # LF # ''foo'' @ [CR, LF]) # []"
    by (simp add: cr_new_def bulk_foo_reply_def)
  have h2: "\<not> has_crlf (CR_BULK # ''3'')" by simp
  have h3: "length (CR_BULK # ''3'' @ CR # LF # ''foo'' @ [CR, LF]) \<le> length (buf_data ?s)"
    by (simp add: cr_new_def)
  have h4: "int (length (CR_BULK # ''3'' @ CR # LF # ''foo'' @ [CR, LF])) \<le> buf_size ?s"
    by (simp add: cr_new_def)
  have h5: "CR_BULK \<noteq> CR_INT" and h6: "CR_BULK \<noteq> CR_ERROR" by simp_all
  from tag_mismatch_protocol_error [OF h1 h2 h3 h4 h5 h6] h1 h2 h3 h4 h5 h6
  show ?thesis by blast
qed

text \<open>
  Claim C9. When the first line of a reply starts with a byte that is neither the tag the
  caller expects nor the error tag, \<open>cr_receivereply\<close> returns
  \<open>CREDIS_ERR_PROTOCOL\<close> in the state the line reader left: the integer, line, bulk
  and multi-bulk fields of the reply are those of the previous cycle.
\<close>

theorem tag_mismatch_keeps_reply:
  assumes "cr_readln (s\<lparr>buf_len := 0, buf_idx := 0\<rparr>) 0 0 = Some (rc, line, s1)"
    and "0 < rc"
    and "load (buf_data s1) line = Some prefix"
    and "prefix \<noteq> recvtype" and "prefix \<noteq> CR_ERROR"
  shows "cr_receivereply s recvtype = Some (CREDIS_ERR_PROTOCOL, s1) \<and>
         reply_integer s1 = reply_integer s \<and> reply_line s1 = reply_line s \<and>
         reply_bulk s1 = reply_bulk s \<and> multibulk_bulks s1 = multibulk_bulks s \<and>
         multibulk_size s1 = multibulk_size s \<and> multibulk_len s1 = multibulk_len s"
  using assms readln_reply [OF assms(1)]
  by (simp add: cr_receivereply_def)

theorem tag_mismatch_keeps_reply_witness:
  "cr_readln ((cr_new [Recv_data bulk_foo_reply])\<lparr>buf_len := 0, buf_idx := 0\<rparr>) 0 0 =
     Some (2, 0, bulk_foo_line_state) \<and>
   (0::int) < 2 \<and>
   load (buf_data bulk_foo_line_state) 0 = Some CR_BULK \<and>
   CR_BULK \<noteq> CR_INT \<and> CR_BULK \<noteq> CR_ERROR \<and>
   cr_receivereply (cr_new [Recv_data bulk_foo_reply]) CR_INT
     = Some (CREDIS_ERR_PROTOCOL, bulk_foo_line_state) \<and>
   reply_integer bulk_foo_line_state = reply_integer (cr_new [Recv_data bulk_foo_reply]) \<and>
   reply_line bulk_foo_line_state = reply_line (cr_new [Recv_data bulk_foo_reply]) \<and>
   reply_bulk bulk_foo_line_state = reply_bulk (cr_new [Recv_data bulk_foo_reply]) \<and>
   multibulk_bulks bulk_foo_line_state = multibulk_bulks (cr_new [Recv_data bulk_foo_reply]) \<and>
   multibulk_size bulk_foo_line_state = multibulk_size (cr_new [Recv_data bulk_foo_reply]) \<and>
   multibulk_len bulk_foo_line_state = multibulk_len (cr_new [Recv_data bulk_foo_reply])"
proof -
  have h2: "(0::int) < 2" by simp
  have h3: "load (buf_data bulk_foo_line_state) 0 = Some CR_BULK"
    by (simp add: bulk_foo_line_state_def load_def)
  have h4: "CR_BULK \<noteq> CR_INT" and h5: "CR_BULK \<noteq> CR_ERROR" by simp_all
  from tag_mismatch_keeps_reply [OF bulk_foo_first_line h2 h3 h4 h5] bulk_foo_first_line h2 h3 h4 h5
  show ?thesis by blast
qed

lemma receivereply_error_line:
  assumes sock: "sock s = Recv_data (CR_ERROR # msg @ CR # LF # rest) # es"
    and line: "\<not> has_crlf msg"
    and fits: "length (CR_ERROR # msg @ CR # LF # rest) \<le> length (buf_data s)"
      "int (length (CR_ERROR # msg @ CR # LF # rest)) \<le> buf_size s"
  shows "cr_receivereply s recvtype =
           Some (CREDIS_ERR_PROTOCOL,
                 s\<lparr>buf_data := CR_ERROR # msg @ NUL # LF # rest
                                  @ drop (length (CR_ERROR # msg @ CR # LF # rest)) (buf_data s),
                   buf_idx := int (length msg) + 3,
                   buf_len := int (length (CR_ERROR # msg @ CR # LF # rest)),
                   sock := es, reply_line := Some 1\<rparr>)"
proof -
  have "\<not> has_crlf (CR_ERROR # msg)"
    using line by (cases msg) simp_all
  from first_line [OF sock this fits] show ?thesis
    by (simp add: cr_receivereply_def load_def cr_receiveerror_def)
qed

text \<open>
  Claim C7 as stated fails: the error reply \<open>-ERR unknown command\<close> is reported with
  \<open>CREDIS_ERR_PROTOCOL\<close>, the code of a malformed reply, not with a code of its own.
\<close>

theorem error_reply_is_protocol_error:
  "map_option fst (cr_receivereply (cr_new [Recv_data (''-ERR unknown command'' @ [CR, LF])]) CR_INLINE)
     = Some CREDIS_ERR_PROTOCOL"
proof -
  let ?s = "cr_new [Recv_data (''-ERR unknown command'' @ [CR, LF])]"
  have "cr_receivereply ?s CR_INLINE =
           Some (CREDIS_ERR_PROTOCOL,
                 ?s\<lparr>buf_data := CR_ERROR # ''ERR unknown command'' @ NUL # LF # []
                        @ drop (length (CR_ERROR # ''ERR unknown command'' @ CR # LF # [])) (buf_data ?s),
                   buf_idx := int (length ''ERR unknown command'') + 3,
                   buf_len := int (length (CR_ERROR # ''ERR unknown command'' @ CR # LF # [])),
                   sock := [], reply_line := Some 1\<rparr>)"
    by (rule receivereply_error_line) (simp_all add: cr_new_def)
  then show ?thesis by simp
qed

text \<open>
  Claim C7, amended. For an error-tagged first line, whatever reply type the caller
  expects, \<open>cr_receivereply\<close> stores in \<open>reply.line\<close> a pointer to the server's message,
  which reads back unmodified, and returns \<open>CREDIS_ERR_PROTOCOL\<close>, the code it also
  returns for a tag mismatch.
\<close>

theorem error_reply_line_and_code:
  assumes sock: "sock s = Recv_data (CR_ERROR # msg @ CR # LF # rest) # es"
    and line: "\<not> has_crlf msg" "NUL \<notin> set msg"
    and fits: "length (CR_ERROR # msg @ CR # LF # rest) \<le> length (buf_data s)"
      "int (length (CR_ERROR # msg @ CR # LF # rest)) \<le> buf_size s"
  shows "\<exists>s'. cr_receivereply s recvtype = Some (CREDIS_ERR_PROTOCOL, s') \<and>
           reply_line s' = Some 1 \<and> c_string (buf_data s') 1 = Some msg"
  using c_string_append [OF line(2), of "[CR_ERROR]"]
  by (simp add: receivereply_error_line [OF sock line(1) fits])

theorem error_reply_line_and_code_witness:
  "sock (cr_new [Recv_data (''-ERR unknown command'' @ [CR, LF])])
     = Recv_data (CR_ERROR # ''ERR unknown command'' @ CR # LF # []) # [] \<and>
   \<not> has_crlf ''ERR unknown command'' \<and> NUL \<notin> set ''ERR unknown command'' \<and>
   length (CR_ERROR # ''ERR unknown command'' @ CR # LF # [])
     \<le> length (buf_data (cr_new [Recv_data (''-ERR unknown command'' @ [CR, LF])])) \<and>
   int (length (CR_ERROR # ''ERR unknown command'' @ CR # LF # []))
     \<le> buf_size (cr_new [Recv_data (''-ERR unknown command'' @ [CR, LF])]) \<and>
   (\<exists>s'. cr_receivereply (cr_new [Recv_data (''-ERR unknown command'' @ [CR, LF])]) CR_BULK
           = Some (CREDIS_ERR_PROTOCOL, s') \<and>
         reply_line s' = Some 1 \<and> c_string (buf_data s') 1 = Some ''ERR unknown command'')"
proof -
  let ?s = "cr_new [Recv_data (''-ERR unknown command'' @ [CR, LF])]"
  have h1: "sock ?s = Recv_data (CR_ERROR # ''ERR unknown command'' @ CR # LF # []) # []"
    by (simp add: cr_new_def)
  have h2: "\<not> has_crlf ''ERR unknown command''" by simp
  have h3: "NUL \<notin> set ''ERR unknown command''" by simp
  have h4: "length (CR_ERROR # ''ERR unknown command'' @ CR # LF # []) \<le> length (buf_data ?s)"
    by (simp add: cr_new_def)
  have h5: "int (length (CR_ERROR # ''ERR unknown command'' @ CR # LF # [])) \<le> buf_size ?s"
    by (simp add: cr_new_def)
  from error_reply_line_and_code [OF h1 h2 h3 h4 h5] h1 h2 h3 h4 h5
  show ?thesis by blast
qed

section \<open>Claims on the transport\<close>

lemma receivereply_closed:
  assumes "sock s = Recv_closed # es"
  shows "cr_receivereply s t = Some (CREDIS_ERR_RECV, s\<lparr>buf_len := 0, buf_idx := 0, sock := es\<rparr>)"
  using assms by (simp add: cr_receivereply_def cr_readln_def cr_receivedata_def)

lemma receivereply_timeout:
  assumes "sock s = Select_timeout # es"
  shows "cr_receivereply s t = Some (CREDIS_ERR_RECV, s\<lparr>buf_len := 0, buf_idx := 0, sock := es\<rparr>)"
  using assms by (simp add: cr_receivereply_def cr_readln_def cr_receivedata_def)

lemma readln_refill_timeout:
  assumes "sock s = Select_timeout # es" and "buf_len s = 0 \<or> buf_len s \<le> buf_idx s"
  shows "cr_readln s start line = Some (- 1, line, s\<lparr>buf_idx := 0, buf_len := 0, sock := es\<rparr>)"
  using assms by (auto simp: cr_readln_def cr_receivedata_def)

lemma readln_refill_closed:
  assumes "sock s = Recv_closed # es" and "buf_len s = 0 \<or> buf_len s \<le> buf_idx s"
  shows "cr_readln s start line = Some (0, line, s\<lparr>buf_idx := 0, buf_len := 0, sock := es\<rparr>)"
  using assms by (auto simp: cr_readln_def cr_receivedata_def)

lemma receivebulk_codes:
  assumes "cr_receivebulk s line = Some (rc, s')"
  shows "rc = OK \<or> rc = CREDIS_ERR_PROTOCOL"
  using assms by (auto simp: cr_receivebulk_def split: option.splits if_splits)

lemma receivereply_codes:
  assumes "cr_receivereply s t = Some (rc, s')"
  shows "rc = OK \<or> rc = CREDIS_ERR_PROTOCOL \<or> rc = CREDIS_ERR_RECV"
proof -
  from assms obtain n line s1 where
    rl: "cr_readln (s\<lparr>buf_len := 0, buf_idx := 0\<rparr>) 0 0 = Some (n, line, s1)"
    by (auto simp: cr_receivereply_def split: option.splits)
  show ?thesis
  proof (cases "n > 0")
    case False
    with assms rl show ?thesis by (simp add: cr_receivereply_def)
  next
    case True
    with assms rl obtain prefix where ld: "load (buf_data s1) line = Some prefix"
      by (auto simp: cr_receivereply_def split: option.splits)
    from assms rl True ld have
      "rc = CREDIS_ERR_PROTOCOL \<or> rc = CREDIS_ERR_RECV
       \<or> cr_receiveerror s1 (line + 1) = Some (rc, s')
       \<or> cr_receiveinline s1 (line + 1) = Some (rc, s')
       \<or> cr_receiveint s1 (line + 1) = Some (rc, s')
       \<or> cr_receivebulk s1 (line + 1) = Some (rc, s')
       \<or> cr_receivemultibulk s1 (line + 1) = Some (rc, s')"
      by (auto simp: cr_receivereply_def split: if_splits)
    then show ?thesis
      using receivebulk_codes [of s1 "line + 1" rc s'] multibulk_result_code [of s1 "line + 1" rc s']
      by (auto simp: cr_receiveerror_def cr_receiveinline_def cr_receiveint_def
               split: option.splits)
  qed
qed

text \<open>
  Claim C6 as stated fails: a deadline that elapses with no data and a peer that closes
  the connection give the caller of \<open>cr_receivereply\<close> the same code,
  \<open>CREDIS_ERR_RECV\<close>.
\<close>

theorem timeout_and_close_same_code:
  "map_option fst (cr_receivereply (cr_new [Select_timeout]) CR_INLINE) = Some CREDIS_ERR_RECV \<and>
   map_option fst (cr_receivereply (cr_new [Recv_closed]) CR_INLINE) = Some CREDIS_ERR_RECV"
  by (simp add: receivereply_closed receivereply_timeout cr_new_def)

text \<open>
  Claim C6, amended. At every call, a deadline that elapses with no data makes
  \<open>cr_receivedata\<close> return -2 and the peer closing the connection makes it return 0;
  \<open>cr_readln\<close>, whenever it has used up the buffer and receives, returns -1 for the
  first and 0 for the second. \<open>cr_receivereply\<close> has no result value for either
  outcome: a cycle that returns, returns 0, \<open>CREDIS_ERR_PROTOCOL\<close> or
  \<open>CREDIS_ERR_RECV\<close>. When the deadline elapses or the peer closes before the first
  line of the reply has arrived, it returns \<open>CREDIS_ERR_RECV\<close> in both cases.
\<close>

theorem timeout_and_close_levels:
  assumes "sock a = Select_timeout # es" and "sock b = Recv_closed # es'"
    and "cr_receivereply c recvtype = Some (rc, c')"
  shows "(\<exists>a'. cr_receivedata a sz = Some (- 2, a')) \<and>
         (\<exists>b'. cr_receivedata b sz = Some (0, b')) \<and>
         (buf_len a = 0 \<or> buf_len a \<le> buf_idx a \<longrightarrow>
            (\<exists>a'. cr_readln a start l = Some (- 1, l, a'))) \<and>
         (buf_len b = 0 \<or> buf_len b \<le> buf_idx b \<longrightarrow>
            (\<exists>b'. cr_readln b start l = Some (0, l, b'))) \<and>
         (\<exists>a'. cr_receivereply a t = Some (CREDIS_ERR_RECV, a')) \<and>
         (\<exists>b'. cr_receivereply b t = Some (CREDIS_ERR_RECV, b')) \<and>
         (rc = OK \<or> rc = CREDIS_ERR_PROTOCOL \<or> rc = CREDIS_ERR_RECV)"
proof -
  have "\<exists>a'. cr_receivedata a sz = Some (- 2, a')" "\<exists>b'. cr_receivedata b sz = Some (0, b')"
    using assms(1,2) by (simp_all add: cr_receivedata_def)
  moreover have "buf_len a = 0 \<or> buf_len a \<le> buf_idx a \<longrightarrow>
            (\<exists>a'. cr_readln a start l = Some (- 1, l, a'))"
    using readln_refill_timeout [OF assms(1)] by blast
  moreover have "buf_len b = 0 \<or> buf_len b \<le> buf_idx b \<longrightarrow>
            (\<exists>b'. cr_readln b start l = Some (0, l, b'))"
    using readln_refill_closed [OF assms(2)] by blast
  moreover have "\<exists>a'. cr_receivereply a t = Some (CREDIS_ERR_RECV, a')"
    using receivereply_timeout [OF assms(1)] by simp
  moreover have "\<exists>b'. cr_receivereply b t = Some (CREDIS_ERR_RECV, b')"
    using receivereply_closed [OF assms(2)] by simp
  moreover note receivereply_codes [OF assms(3)]
  ultimately show ?thesis by blast
qed

theorem timeout_and_close_levels_witness:
  "sock (cr_new [Select_timeout]) = Select_timeout # [] \<and>
   sock (cr_new [Recv_closed]) = Recv_closed # [] \<and>
   cr_receivereply (cr_new [Recv_closed]) CR_BULK
     = Some (CREDIS_ERR_RECV, (cr_new [Recv_closed])\<lparr>buf_len := 0, buf_idx := 0, sock := []\<rparr>) \<and>
   (\<exists>a'. cr_receivedata (cr_new [Select_timeout]) 4096 = Some (- 2, a')) \<and>
   (\<exists>b'. cr_receivedata (cr_new [Recv_closed]) 4096 = Some (0, b')) \<and>
   (\<exists>a'. cr_readln (cr_new [Select_timeout]) 0 0 = Some (- 1, 0, a')) \<and>
   (\<exists>b'. cr_readln (cr_new [Recv_closed]) 0 0 = Some (0, 0, b')) \<and>
   (\<exists>a'. cr_receivereply (cr_new [Select_timeout]) CR_INLINE = Some (CREDIS_ERR_RECV, a')) \<and>
   (\<exists>b'. cr_receivereply (cr_new [Recv_closed]) CR_INLINE = Some (CREDIS_ERR_RECV, b'))"
proof -
  have h1: "sock (cr_new [Select_timeout]) = Select_timeout # []"
    and h2: "sock (cr_new [Recv_closed]) = Recv_closed # []"
    by (simp_all add: cr_new_def)
  have h3: "cr_receivereply (cr_new [Recv_closed]) CR_BULK
     = Some (CREDIS_ERR_RECV, (cr_new [Recv_closed])\<lparr>buf_len := 0, buf_idx := 0, sock := []\<rparr>)"
    by (rule receivereply_closed) (rule h2)
  have u1: "buf_len (cr_new [Select_timeout]) = 0 \<or>
            buf_len (cr_new [Select_timeout]) \<le> buf_idx (cr_new [Select_timeout])"
    and u2: "buf_len (cr_new [Recv_closed]) = 0 \<or>
            buf_len (cr_new [Recv_closed]) \<le> buf_idx (cr_new [Recv_closed])"
    by (simp_all add: cr_new_def)
  from timeout_and_close_levels [OF h1 h2 h3, of 4096 0 0 CR_INLINE] h1 h2 h3 u1 u2
  show ?thesis by blast
qed

text \<open>
  At a later receive of the cycle the handler decides what the caller sees. After the
  header line of a bulk reply, the deadline ends the cycle in \<open>CREDIS_ERR_PROTOCOL\<close>
  and the close ends it in 0, with the payload never received.
\<close>

lemma bulk_header_then_silence:
  assumes sock: "sock s = Recv_data (CR_BULK # decimal n @ [CR, LF]) # ev # es"
    and fits: "length (CR_BULK # decimal n @ [CR, LF]) \<le> length (buf_data s)"
      "int (length (CR_BULK # decimal n @ [CR, LF])) \<le> buf_size s"
    and small: "int n < 2 ^ 31"
  shows "ev = Select_timeout \<Longrightarrow> \<exists>s'. cr_receivereply s CR_BULK = Some (CREDIS_ERR_PROTOCOL, s')"
    and "ev = Recv_closed \<Longrightarrow> \<exists>s'. cr_receivereply s CR_BULK = Some (OK, s')"
proof -
  let ?dl = "decimal n"
  let ?chunk = "CR_BULK # ?dl @ CR # LF # []"
  define s1 where "s1 = s\<lparr>buf_data := CR_BULK # ?dl @ NUL # LF # [] @ drop (length ?chunk) (buf_data s),
                           buf_idx := int (length ?dl) + 3,
                           buf_len := int (length ?chunk),
                           sock := ev # es\<rparr>"
  have nocr: "\<not> has_crlf (CR_BULK # ?dl)"
    by (rule has_crlf_no_CR) (use decimal_no_CR in simp)
  have fl: "cr_readln (s\<lparr>buf_len := 0, buf_idx := 0\<rparr>) 0 0 = Some (1 + int (length ?dl), 0, s1)"
    unfolding s1_def
    by (rule first_line [OF _ nocr]) (use sock fits in simp_all)
  have ld: "load (buf_data s1) 0 = Some CR_BULK"
    by (simp add: s1_def load_def)
  have "c_string ([CR_BULK] @ ?dl @ NUL # (LF # [] @ drop (length ?chunk) (buf_data s))) (int (length [CR_BULK])) = Some ?dl"
    by (rule c_string_append) (rule decimal_no_NUL)
  then have at: "atoi_at (buf_data s1) 1 = Some (int n)"
    using atoi_decimal [OF small] by (simp add: atoi_at_def s1_def)
  have used: "buf_len s1 = 0 \<or> buf_len s1 \<le> buf_idx s1" by (simp add: s1_def)
  have rr: "cr_receivereply s CR_BULK = cr_receivebulk s1 1"
    by (simp add: cr_receivereply_def fl ld)
  show "\<exists>s'. cr_receivereply s CR_BULK = Some (CREDIS_ERR_PROTOCOL, s')" if "ev = Select_timeout"
  proof -
    have "sock s1 = Select_timeout # es" using that by (simp add: s1_def)
    from readln_refill_timeout [OF this used, of "int n" 1] show ?thesis
      by (simp add: rr cr_receivebulk_def at)
  qed
  show "\<exists>s'. cr_receivereply s CR_BULK = Some (OK, s')" if "ev = Recv_closed"
  proof -
    have "sock s1 = Recv_closed # es" using that by (simp add: s1_def)
    from readln_refill_closed [OF this used, of "int n" 1] show ?thesis
      by (simp add: rr cr_receivebulk_def at)
  qed
qed

lemma bytes_taken_nonneg: "0 \<le> bytes_taken es"
proof (induction es)
  case Nil
  show ?case by (simp add: bytes_taken_def)
next
  case (Cons e es)
  then show ?case by (cases e) (simp_all add: bytes_taken_def)
qed

lemma bytes_taken_Cons:
  "bytes_taken (e # es) = (if send_accepted e then send_count e + bytes_taken es else 0)"
  by (simp add: bytes_taken_def)

lemma first_stop_Cons:
  "first_stop (e # es) = (if send_accepted e then first_stop es else [e])"
  by (simp add: first_stop_def)

lemma senddata_loop_events:
  assumes "0 \<le> sent" and "sent \<le> sz"
  shows "cr_senddata_loop es sz sent =
           (if sz \<le> sent + bytes_taken es then sz
            else if first_stop es = [] \<or> first_stop es = [Send_select_timeout]
                 then sent + bytes_taken es
                 else - 1)"
  using assms
proof (induction es arbitrary: sent)
  case Nil
  then show ?case by (simp add: bytes_taken_def first_stop_def)
next
  case (Cons e es)
  note nn = bytes_taken_nonneg [of es]
  show ?case
  proof (cases "sent < sz")
    case False
    with Cons.prems have "sent = sz" by simp
    with bytes_taken_nonneg [of "e # es"] show ?thesis by simp
  next
    case lt: True
    show ?thesis
    proof (cases e)
      case Send_select_timeout
      with lt show ?thesis by (simp add: bytes_taken_Cons first_stop_Cons)
    next
      case Send_select_error
      with lt show ?thesis by (simp add: bytes_taken_Cons first_stop_Cons)
    next
      case (Send_returns rc)
      show ?thesis
      proof (cases "rc < 0")
        case True
        with lt Send_returns show ?thesis by (simp add: bytes_taken_Cons first_stop_Cons)
      next
        case False
        define sent' where "sent' = sent + min rc (sz - sent)"
        have s': "0 \<le> sent'" "sent' \<le> sz" using False Cons.prems by (simp_all add: sent'_def)
        have step: "cr_senddata_loop (e # es) sz sent = cr_senddata_loop es sz sent'"
          using lt Send_returns False by (simp add: sent'_def)
        have c1: "(sz \<le> sent' + bytes_taken es) = (sz \<le> sent + (rc + bytes_taken es))"
          using nn False by (auto simp: sent'_def min_def)
        have c2: "\<not> sz \<le> sent' + bytes_taken es \<Longrightarrow> sent' + bytes_taken es = sent + (rc + bytes_taken es)"
          using nn False by (auto simp: sent'_def min_def split: if_splits)
        show ?thesis
          unfolding step Cons.IH [OF s']
          using Send_returns False c1 c2 by (simp add: bytes_taken_Cons first_stop_Cons)
      qed
    qed
  qed
qed

text \<open>
  Claim C8. For a buffer of \<open>size\<close> bytes, \<open>size\<close> not negative, and every behaviour
  of the socket: \<open>cr_senddata\<close> returns a count from 0 to below \<open>size\<close> exactly when
  the deadline elapsed before all bytes were sent; it returns -1 exactly when \<open>select\<close>
  or \<open>send\<close> failed before all bytes were sent; it returns \<open>size\<close> exactly when the
  socket accepted all bytes. A count is the number of bytes the socket accepted, never
  more than \<open>size\<close>.
\<close>

theorem senddata_return_value:
  assumes "0 \<le> sz"
  shows "(0 \<le> cr_senddata es sz \<and> cr_senddata es sz < sz \<longleftrightarrow> deadline_before_all_sent es sz) \<and>
         (cr_senddata es sz = - 1 \<longleftrightarrow> socket_error_before_all_sent es sz) \<and>
         (cr_senddata es sz = sz \<longleftrightarrow> all_bytes_sent es sz) \<and>
         (cr_senddata es sz = - 1 \<or> cr_senddata es sz = min (bytes_taken es) sz)"
  using assms bytes_taken_nonneg [of es] senddata_loop_events [of 0 sz es]
  by (auto simp: cr_senddata_def deadline_before_all_sent_def socket_error_before_all_sent_def
                 all_bytes_sent_def)

theorem senddata_return_value_witness:
  "(0::int) \<le> 7 \<and>
   deadline_before_all_sent [Send_returns 3, Send_select_timeout] 7 \<and>
   0 \<le> cr_senddata [Send_returns 3, Send_select_timeout] 7 \<and>
   cr_senddata [Send_returns 3, Send_select_timeout] 7 < 7 \<and>
   cr_senddata [Send_returns 3, Send_select_timeout] 7 = 3 \<and>
   socket_error_before_all_sent [Send_returns 3, Send_returns (- 1)] 7 \<and>
   cr_senddata [Send_returns 3, Send_returns (- 1)] 7 = - 1 \<and>
   all_bytes_sent [Send_returns 3, Send_returns 4, Send_select_error] 7 \<and>
   cr_senddata [Send_returns 3, Send_returns 4, Send_select_error] 7 = 7"
proof -
  have h: "(0::int) \<le> 7" by simp
  have d: "deadline_before_all_sent [Send_returns 3, Send_select_timeout] 7"
    and b: "bytes_taken [Send_returns 3, Send_select_timeout] = 3"
    and e: "socket_error_before_all_sent [Send_returns 3, Send_returns (- 1)] 7"
    and a: "all_bytes_sent [Send_returns 3, Send_returns 4, Send_select_error] 7"
    by (simp_all add: deadline_before_all_sent_def socket_error_before_all_sent_def
          all_bytes_sent_def bytes_taken_def first_stop_def)
  from senddata_return_value [OF h, of "[Send_returns 3, Send_select_timeout]"] d b
  have r1: "0 \<le> cr_senddata [Send_returns 3, Send_select_timeout] 7"
    "cr_senddata [Send_returns 3, Send_select_timeout] 7 < 7"
    "cr_senddata [Send_returns 3, Send_select_timeout] 7 = 3"
    by auto
  from senddata_return_value [OF h, of "[Send_returns 3, Send_returns (- 1)]"] e
  have r2: "cr_senddata [Send_returns 3, Send_returns (- 1)] 7 = - 1"
    by blast
  from senddata_return_value [OF h, of "[Send_returns 3, Send_returns 4, Send_select_error]"] a
  have r3: "cr_senddata [Send_returns 3, Send_returns 4, Send_select_error] 7 = 7"
    by blast
  show ?thesis
    by (rule conjI [OF h conjI [OF d conjI [OF r1(1) conjI [OF r1(2) conjI [OF r1(3)
          conjI [OF e conjI [OF r2 conjI [OF a r3]]]]]]]])
qed

end
